theory Spec2Isabelle
  imports Main
begin

section \<open>The windowToggle operator of src/internal/operators/windowToggle.ts\<close>

text \<open>
  One subscription to the operator's output is a state machine. Its state is the
  closure of lines 66-67 (the array \<open>windows\<close>) together with what the stream runtime
  keeps for that subscription; its inputs are the notifications of the three kinds of
  upstream (the openings stream, the closing streams, the source) and the cancellation
  of the output. Every call the operator makes on a collaborator (a window \<open>Subject\<close>,
  the output \<open>subscriber\<close>, a \<open>closingSubscription\<close>) is appended to a trace, in the
  order the source makes it.
\<close>

subsection \<open>Data\<close>

text \<open>A window is a \<open>Subject\<close> object; the model names it by its allocation number.\<close>

type_synonym wid = nat

text \<open>\<open>window.asObservable()\<close>, line 105: the view that is handed downstream.\<close>

datatype window_view = AsObservable wid

text \<open>What a stream can send to a listener: a value, an error, or completion. For a
  closing stream the value itself is never looked at (line 95 passes \<open>closeWindow\<close>,
  which takes no argument).\<close>

datatype 'e signal = CNext | CError 'e | CComplete

text \<open>The calls the operator makes on its collaborators: \<open>new Subject\<close> (line 87), the
  closing selector (line 99), the methods of a window, of the output subscriber and of
  a closing stream or its subscription.\<close>

datatype ('o, 'v, 'e) effect =
    WindowNew wid
  | SelectorCall 'o
  | WindowNext wid 'v
  | WindowError wid 'e
  | WindowComplete wid
  | WindowUnsubscribe wid
  | OutNext window_view
  | OutError 'e
  | OutComplete
  | ClosingSubscribe wid
  | ClosingUnsubscribe wid

text \<open>
  \<^item> \<open>windows\<close>: the array of line 67.
  \<^item> \<open>fresh\<close>: how many \<open>Subject\<close>s line 87 has created; the next one gets this number.
  \<^item> \<open>trace\<close>: the calls made so far, oldest first.
  \<^item> \<open>out_closed\<close>: the output subscriber has had its terminal event or was cancelled.
  \<^item> \<open>openings_done\<close>: the openings listener has had its terminal event.
  \<^item> \<open>released\<close>: the windows whose \<open>closingSubscription\<close> has been unsubscribed.
  \<^item> \<open>attached\<close>: the windows whose \<open>closingSubscription\<close> holds the handle of the
    closing listener (line 107, after \<open>subscribe\<close> has returned).
  \<^item> \<open>listening\<close>: the windows whose closing listener is subscribed and not stopped.
  \<^item> \<open>armed\<close>: line 115 has built the source listener, and with it the teardown of
    lines 134-143, while the output was open.
\<close>

record ('o, 'v, 'e) state =
  windows :: "wid list"
  fresh :: wid
  trace :: "('o, 'v, 'e) effect list"
  out_closed :: bool
  openings_done :: bool
  released :: "wid set"
  attached :: "wid set"
  listening :: "wid set"
  armed :: bool

definition emit :: "('o, 'v, 'e) effect \<Rightarrow> ('o, 'v, 'e) state \<Rightarrow> ('o, 'v, 'e) state" where
  "emit x s = s\<lparr>trace := trace s @ [x]\<rparr>"

subsection \<open>The drain loops\<close>

text \<open>
  The three loops of the source (lines 70-72, 129-131, 140-142) have one shape:
  \<open>while (0 < windows.length) { windows.shift()!.f(..) }\<close>. \<open>call\<close> is the call made on
  the window that was shifted out.
\<close>

function drain :: "(wid \<Rightarrow> ('o, 'v, 'e) effect) \<Rightarrow> ('o, 'v, 'e) state \<Rightarrow> ('o, 'v, 'e) state" where
  "drain call s =
     (if 0 < length (windows s)
      then drain call (emit (call (hd (windows s))) (s\<lparr>windows := tl (windows s)\<rparr>))
      else s)"
  by pat_completeness auto
termination
  by (relation "measure (\<lambda>(call, s). length (windows s))") (auto simp: emit_def)

declare drain.simps [simp del]

subsection \<open>The collaborators that are not under src/\<close>

text \<open>
  Modelled from the spec: \<open>arrRemove\<close> (util/arrRemove) is not under src/. Section 4.1:
  "remove(window): remove by identity, no-op if absent".
\<close>

definition arrRemove :: "wid list \<Rightarrow> wid \<Rightarrow> wid list" where
  "arrRemove arr item = remove1 item arr"

text \<open>
  Modelled from the spec: \<open>Subscriber\<close>, \<open>OperatorSubscriber\<close> and \<open>Subscription\<close> are
  not under src/. Section 6: a stream delivers "at most one terminal event (error xor
  complete) per subscription", and cancelling "is idempotent and stops further
  delivery". Section 5: "cancelling the output subscription must transitively cancel
  the Opening Listener's subscription, every Closing Listener's subscription, and must
  drain the registry per 4.3's cancellation branch". Section 4.4: the output "prevents
  it from accepting further signals after its first terminal event".

  \<open>finalize\<close> is what happens when the output subscription ends, for any reason: every
  listener is cancelled, and the teardown of lines 134-143 runs if it exists. It is the
  fifth argument of the source listener, which line 115 builds only after
  \<open>openNotifier.subscribe\<close> (line 83) has returned: an output that ends while line 83 is
  still running (an openings stream that emits or errors during its subscription) has
  no teardown, and one built on an output that has ended never runs.
\<close>

definition teardown :: "('o, 'v, 'e) state \<Rightarrow> ('o, 'v, 'e) state" where
  "teardown s = drain WindowUnsubscribe s"

definition finalize :: "('o, 'v, 'e) state \<Rightarrow> ('o, 'v, 'e) state" where
  "finalize s = (if armed s then teardown s else s)\<lparr>out_closed := True, listening := {}\<rparr>"

definition subscriber_next :: "window_view \<Rightarrow> ('o, 'v, 'e) state \<Rightarrow> ('o, 'v, 'e) state" where
  "subscriber_next x s = (if out_closed s then s else emit (OutNext x) s)"

definition subscriber_error :: "'e \<Rightarrow> ('o, 'v, 'e) state \<Rightarrow> ('o, 'v, 'e) state" where
  "subscriber_error err s = (if out_closed s then s else finalize (emit (OutError err) s))"

definition subscriber_complete :: "('o, 'v, 'e) state \<Rightarrow> ('o, 'v, 'e) state" where
  "subscriber_complete s = (if out_closed s then s else finalize (emit OutComplete s))"

definition subscriber_unsubscribe :: "('o, 'v, 'e) state \<Rightarrow> ('o, 'v, 'e) state" where
  "subscriber_unsubscribe s = (if out_closed s then s else finalize s)"

text \<open>
  Modelled from the spec: \<open>Subscription\<close> is not under src/. Section 6, the
  cancellation-set primitive: "a container of cancellation handles that can be added
  to dynamically and cancelled as a unit"; section 3, the closing association is
  "released (cancelled) exactly once". Cancelling the set cancels the listener whose
  handle it holds; a handle added to a set that is already cancelled is cancelled at
  once.
\<close>

definition closingSubscription_unsubscribe :: "wid \<Rightarrow> ('o, 'v, 'e) state \<Rightarrow> ('o, 'v, 'e) state" where
  "closingSubscription_unsubscribe w s =
     (emit (ClosingUnsubscribe w) s)
       \<lparr>released := insert w (released s),
        listening := (if w \<in> attached s then listening s - {w} else listening s)\<rparr>"

definition closingSubscription_add :: "wid \<Rightarrow> ('o, 'v, 'e) state \<Rightarrow> ('o, 'v, 'e) state" where
  "closingSubscription_add w s =
     (if w \<in> released s then s\<lparr>listening := listening s - {w}\<rparr>
      else s\<lparr>attached := insert w (attached s)\<rparr>)"

subsection \<open>The operator\<close>

text \<open>Lines 69-74.\<close>

definition handleError :: "'e \<Rightarrow> ('o, 'v, 'e) state \<Rightarrow> ('o, 'v, 'e) state" where
  "handleError err s = subscriber_error err (drain (\<lambda>w. WindowError w err) s)"

text \<open>Lines 90-94, for the window \<open>w\<close> the closure was made for.\<close>

definition closeWindow :: "wid \<Rightarrow> ('o, 'v, 'e) state \<Rightarrow> ('o, 'v, 'e) state" where
  "closeWindow w s =
     closingSubscription_unsubscribe w
       (emit (WindowComplete w) (s\<lparr>windows := arrRemove (windows s) w\<rparr>))"

text \<open>
  Modelled from the spec: \<open>OperatorSubscriber\<close> is not under src/. The closing listener of
  window \<open>w\<close> is built at line 95,
  \<open>new OperatorSubscriber(subscriber, closeWindow, handleError, closeWindow)\<close>: the
  callback for a value, for an error, for completion. Section 4.2, step 5: "on its first
  value or its completion, invoke the window's close procedure; on its error, invoke
  global error handling". Section 6: a listener gets "at most one terminal event", and
  none once cancelled; so a listener that is cancelled or stopped gets nothing, and it
  stops after an error or a completion.
\<close>

definition closing_notify :: "wid \<Rightarrow> 'e signal \<Rightarrow> ('o, 'v, 'e) state \<Rightarrow> ('o, 'v, 'e) state" where
  "closing_notify w c s =
     (if out_closed s \<or> w \<notin> listening s then s
      else case c of
          CNext \<Rightarrow> closeWindow w s
        | CError err \<Rightarrow> (let s' = handleError err s in s'\<lparr>listening := listening s' - {w}\<rparr>)
        | CComplete \<Rightarrow> (let s' = closeWindow w s in s'\<lparr>listening := listening s' - {w}\<rparr>))"

text \<open>
  \<open>closingNotifier.subscribe(closingSubscriber)\<close>, line 107. \<open>sync\<close> is what the closing
  stream sends before \<open>subscribe\<close> returns (nothing, for a stream that fires later).
\<close>

fun closing_deliver :: "wid \<Rightarrow> 'e signal list \<Rightarrow> ('o, 'v, 'e) state \<Rightarrow> ('o, 'v, 'e) state" where
  "closing_deliver w [] s = s"
| "closing_deliver w (c # cs) s = closing_deliver w cs (closing_notify w c s)"

definition closing_subscribe :: "wid \<Rightarrow> 'e signal list \<Rightarrow> ('o, 'v, 'e) state \<Rightarrow> ('o, 'v, 'e) state" where
  "closing_subscribe w sync s =
     (let s1 = emit (ClosingSubscribe w) s
      in if out_closed s1 then s1
         else closing_deliver w sync (s1\<lparr>listening := insert w (listening s1)\<rparr>))"

text \<open>
  Lines 86-108, the handler of an opening value. \<open>closingSelector openValue\<close> is
  \<open>Inl err\<close> when line 99 throws \<open>err\<close> (the selector itself, or \<open>from\<close> on its result),
  and \<open>Inr sync\<close> when it yields a closing stream.
\<close>

definition on_opening ::
  "('o \<Rightarrow> 'e + 'e signal list) \<Rightarrow> 'o \<Rightarrow> ('o, 'v, 'e) state \<Rightarrow> ('o, 'v, 'e) state" where
  "on_opening closingSelector openValue s =
     (let window = fresh s;
          s1 = emit (WindowNew window) (s\<lparr>fresh := Suc window\<rparr>);
          s2 = emit (SelectorCall openValue) (s1\<lparr>windows := windows s1 @ [window]\<rparr>)
      in case closingSelector openValue of
           Inl err \<Rightarrow> handleError err s2
         | Inr sync \<Rightarrow>
             closingSubscription_add window
               (closing_subscribe window sync
                 (subscriber_next (AsObservable window) s2)))"

text \<open>
  Lines 87-99 on their own: the window is created and pushed, and the selector is
  called. \<open>on_opening\<close> above does the same before it branches.
\<close>

definition opened :: "'o \<Rightarrow> ('o, 'v, 'e) state \<Rightarrow> ('o, 'v, 'e) state" where
  "opened openValue s =
     (let window = fresh s;
          s1 = emit (WindowNew window) (s\<lparr>fresh := Suc window\<rparr>)
      in emit (SelectorCall openValue) (s1\<lparr>windows := windows s1 @ [window]\<rparr>))"

text \<open>
  The openings listener, lines 84-111:
  \<open>new OperatorSubscriber(subscriber, (openValue) => {..}, undefined, noop)\<close>. The error
  callback is \<open>undefined\<close> (line 109): \<open>handleError\<close> is not handed to this listener, as
  it is to the closing listener (line 95) and to the source listener (line 126), so an
  error of the openings stream runs no code of this file. \<open>OperatorSubscriber\<close> is not
  under src/; a listener without an error callback passes the error on to its
  destination, its first argument, here the output subscriber (line 85). On completion
  \<open>noop\<close> runs (line 110) and the output stays open.
\<close>

definition on_opening_error :: "'e \<Rightarrow> ('o, 'v, 'e) state \<Rightarrow> ('o, 'v, 'e) state" where
  "on_opening_error err s = subscriber_error err (s\<lparr>openings_done := True\<rparr>)"

definition on_opening_complete :: "('o, 'v, 'e) state \<Rightarrow> ('o, 'v, 'e) state" where
  "on_opening_complete s = s\<lparr>openings_done := True\<rparr>"

text \<open>Lines 127-133.\<close>

definition on_source_complete :: "('o, 'v, 'e) state \<Rightarrow> ('o, 'v, 'e) state" where
  "on_source_complete s = subscriber_complete (drain WindowComplete s)"

text \<open>A terminal call on window \<open>w\<close>: \<open>error\<close>, \<open>complete\<close> or \<open>unsubscribe\<close>.\<close>

fun terminal_on :: "wid \<Rightarrow> ('o, 'v, 'e) effect \<Rightarrow> bool" where
  "terminal_on w (WindowError w' err) = (w' = w)"
| "terminal_on w (WindowComplete w') = (w' = w)"
| "terminal_on w (WindowUnsubscribe w') = (w' = w)"
| "terminal_on w _ = False"

definition terminated :: "wid \<Rightarrow> ('o, 'v, 'e) effect list \<Rightarrow> bool" where
  "terminated w tr = list_ex (terminal_on w) tr"

subsection \<open>Notifications and reentrancy\<close>

text \<open>
  A consumer of a window runs inside \<open>window.next(value)\<close> (line 123) and may, before it
  returns, make any upstream fire or cancel the output. \<open>Source v rs\<close> is a source value
  together with these reactions: the \<open>i\<close>-th element of \<open>rs\<close> is what the consumers of the
  \<open>i\<close>-th window of \<open>windowsCopy\<close> set off (nothing when \<open>rs\<close> is shorter). In the same
  way the consumer of the output runs inside \<open>subscriber.next(window..)\<close> (line 105):
  \<open>OpeningReact ov r\<close> is an opening value whose window, when handed downstream, sets
  off \<open>r\<close>; \<open>Opening ov\<close> is an opening value that sets off nothing. A closing stream that
  fires while it is being subscribed is the \<open>sync\<close> list of \<open>closing_subscribe\<close>. The
  recipients of a terminal notification are taken not to call back into the operator.

  \<open>SourceSubscribe\<close> is line 115: \<open>openNotifier.subscribe\<close> (line 83) has returned and the
  source listener is built. What the openings stream sends during its own subscription
  comes before it, everything later after it.
\<close>

datatype ('o, 'v, 'e) event =
    Opening 'o
  | OpeningError 'e
  | OpeningComplete
  | Source 'v "('o, 'v, 'e) event list list"
  | SourceError 'e
  | SourceComplete
  | Closing wid "'e signal"
  | Cancel
  | OpeningReact 'o "('o, 'v, 'e) event list"
  | SourceSubscribe

text \<open>
  Modelled from the spec: which notifications still reach a handler is decided by
  \<open>Subscriber\<close>, not under src/. Section 6: "at most one terminal event (error xor
  complete) per subscription", cancelling "stops further delivery"; section 5 (d):
  once the output has had its terminal event or was cancelled, "any later-arriving
  signal from a stale subscription" is "a no-op". So a notification is dropped when the
  output has ended, and an opening notification also when the openings stream has
  ended. The handlers are those the source gives to each listener: lines 86-108 for an
  opening value, lines 118-125 for a source value (\<open>fan_out\<close>, over \<open>windows.slice()\<close>),
  \<open>handleError\<close> (line 126) and lines 127-133 for the end of the source, and the
  teardown of lines 134-143 when the output is cancelled. A notification of the source
  presupposes line 115; its handlers read nothing of \<open>armed\<close>.

  The loop of lines 122-124 has no try/catch. \<open>Subject\<close> is not under src/: \<open>next\<close> on a
  window that has been unsubscribed throws, so the loop is left at the first such
  window of the copy, after the call on it; the windows after it are not called. A
  window is unsubscribed by the teardown only, so by then the output has ended
  (\<open>registry_inv\<close> below) and nothing more comes of the exception. A window that has
  ended passes the value to nobody (\<open>subject_call\<close> below), so its consumers set off
  nothing.
\<close>

fun exec ::
    "('o \<Rightarrow> 'e + 'e signal list) \<Rightarrow> ('o, 'v, 'e) event \<Rightarrow> ('o, 'v, 'e) state \<Rightarrow> ('o, 'v, 'e) state"
  and exec_all ::
    "('o \<Rightarrow> 'e + 'e signal list) \<Rightarrow> ('o, 'v, 'e) event list \<Rightarrow> ('o, 'v, 'e) state \<Rightarrow> ('o, 'v, 'e) state"
  and fan_out ::
    "('o \<Rightarrow> 'e + 'e signal list) \<Rightarrow> 'v \<Rightarrow> wid list \<Rightarrow> ('o, 'v, 'e) event list list
      \<Rightarrow> ('o, 'v, 'e) state \<Rightarrow> ('o, 'v, 'e) state"
where
  "exec sel (Opening ov) s =
     (if out_closed s \<or> openings_done s then s else on_opening sel ov s)"
| "exec sel (OpeningError err) s =
     (if out_closed s \<or> openings_done s then s else on_opening_error err s)"
| "exec sel OpeningComplete s =
     (if out_closed s \<or> openings_done s then s else on_opening_complete s)"
| "exec sel (Source v rs) s =
     (if out_closed s then s else fan_out sel v (windows s) rs s)"
| "exec sel (SourceError err) s =
     (if out_closed s then s else handleError err s)"
| "exec sel SourceComplete s =
     (if out_closed s then s else on_source_complete s)"
| "exec sel (Closing w c) s = closing_notify w c s"
| "exec sel Cancel s = subscriber_unsubscribe s"
| "exec sel (OpeningReact ov r) s =
     (if out_closed s \<or> openings_done s then s
      else case sel ov of
             Inl err \<Rightarrow> handleError err (opened ov s)
           | Inr sync \<Rightarrow>
               closingSubscription_add (fresh s)
                 (closing_subscribe (fresh s) sync
                   (exec_all sel r (subscriber_next (AsObservable (fresh s)) (opened ov s)))))"
| "exec sel SourceSubscribe s = (if out_closed s then s else s\<lparr>armed := True\<rparr>)"
| "exec_all sel [] s = s"
| "exec_all sel (e # es) s = exec_all sel es (exec sel e s)"
| "fan_out sel v [] rs s = s"
| "fan_out sel v (window # windowsCopy) [] s =
     (if WindowUnsubscribe window \<in> set (trace s) then emit (WindowNext window v) s
      else fan_out sel v windowsCopy [] (emit (WindowNext window v) s))"
| "fan_out sel v (window # windowsCopy) (r # rs) s =
     (if WindowUnsubscribe window \<in> set (trace s) then emit (WindowNext window v) s
      else fan_out sel v windowsCopy rs
             (if terminated window (trace s) then emit (WindowNext window v) s
              else exec_all sel r (emit (WindowNext window v) s)))"

text \<open>Lines 66-82: the state in which line 83 starts. \<open>from(openings)\<close> may throw (line 78),
  and then nothing else is set up.\<close>

definition start :: "('o, 'v, 'e) state" where
  "start = \<lparr>windows = [], fresh = 0, trace = [], out_closed = False, openings_done = False,
            released = {}, attached = {}, listening = {}, armed = False\<rparr>"

definition subscribe_windowToggle :: "'e option \<Rightarrow> ('o, 'v, 'e) state" where
  "subscribe_windowToggle coercion_failure =
     (case coercion_failure of
        None \<Rightarrow> start
      | Some err \<Rightarrow> (emit (OutError err) start)\<lparr>out_closed := True\<rparr>)"

subsection \<open>Reading a trace\<close>

text \<open>The windows handed to the output, and the opening values the closing selector
  was called on, each in the order of the calls.\<close>

fun out_windows :: "('o, 'v, 'e) effect list \<Rightarrow> window_view list" where
  "out_windows [] = []"
| "out_windows (OutNext x # tr) = x # out_windows tr"
| "out_windows (_ # tr) = out_windows tr"

fun selector_calls :: "('o, 'v, 'e) effect list \<Rightarrow> 'o list" where
  "selector_calls [] = []"
| "selector_calls (SelectorCall ov # tr) = ov # selector_calls tr"
| "selector_calls (_ # tr) = selector_calls tr"

fun is_next_of :: "'v \<Rightarrow> ('o, 'v, 'e) effect \<Rightarrow> bool" where
  "is_next_of v (WindowNext w v') = (v' = v)"
| "is_next_of v _ = False"

text \<open>The source emits \<open>v\<close> in \<open>e\<close>: as \<open>e\<close> itself, or from inside a reaction of \<open>e\<close>.\<close>

fun emits :: "'v \<Rightarrow> ('o, 'v, 'e) event \<Rightarrow> bool" where
  "emits v (Source v' rs) = (v' = v \<or> (\<exists>r \<in> set rs. \<exists>e \<in> set r. emits v e))"
| "emits v (OpeningReact ov r) = (\<exists>e \<in> set r. emits v e)"
| "emits v _ = False"


text \<open>
  Modelled from the spec: \<open>Subject\<close> is not under src/. Section 6, the multicast channel:
  "buffering no history", with "three terminal operations: complete(), error(e), and a
  forced-cancel that is observably distinct from complete/error to late subscribers
  (they must receive an error)". Section 9: "model the window's terminal state as a
  tagged variant {Open, Completed, Errored(e), Cancelled}"; "a late subscriber checks
  this tag and is immediately given the corresponding terminal signal (Cancelled maps
  to an error signal ..)". The first terminal operation decides the state; a value
  pushed after it goes nowhere.
\<close>

datatype 'e status = Open | Completed | Errored 'e | Cancelled

record ('v, 'e) subject =
  status :: "'e status"
  received :: "'v list"

fun subject_call :: "wid \<Rightarrow> ('v, 'e) subject \<Rightarrow> ('o, 'v, 'e) effect \<Rightarrow> ('v, 'e) subject" where
  "subject_call w sb (WindowNext w' v) =
     (if w' = w \<and> status sb = Open then sb\<lparr>received := received sb @ [v]\<rparr> else sb)"
| "subject_call w sb (WindowError w' err) =
     (if w' = w \<and> status sb = Open then sb\<lparr>status := Errored err\<rparr> else sb)"
| "subject_call w sb (WindowComplete w') =
     (if w' = w \<and> status sb = Open then sb\<lparr>status := Completed\<rparr> else sb)"
| "subject_call w sb (WindowUnsubscribe w') =
     (if w' = w \<and> status sb = Open then sb\<lparr>status := Cancelled\<rparr> else sb)"
| "subject_call w sb _ = sb"

definition subject_of :: "wid \<Rightarrow> ('o, 'v, 'e) effect list \<Rightarrow> ('v, 'e) subject" where
  "subject_of w tr = foldl (subject_call w) \<lparr>status = Open, received = []\<rparr> tr"

text \<open>What a consumer is given at once when it subscribes to a window in this state.\<close>

datatype 'e late = Waits | LateComplete | LateError 'e | LateUnsubscribedError

fun late_subscriber :: "('v, 'e) subject \<Rightarrow> 'e late" where
  "late_subscriber sb =
     (case status sb of
        Open \<Rightarrow> Waits
      | Completed \<Rightarrow> LateComplete
      | Errored err \<Rightarrow> LateError err
      | Cancelled \<Rightarrow> LateUnsubscribedError)"

subsection \<open>Invariants\<close>

text \<open>
  The registry holds, in opening order, the windows that have been created and have
  had no terminal call; terminal calls are made on created windows only; a closing
  listener exists for created windows only; once an output with a teardown has ended
  the registry is empty; a window is unsubscribed only by that teardown.
\<close>

definition registry_inv :: "('o, 'v, 'e) state \<Rightarrow> bool" where
  "registry_inv s \<longleftrightarrow>
     windows s = filter (\<lambda>w. \<not> terminated w (trace s)) [0..<fresh s]
     \<and> (\<forall>w. terminated w (trace s) \<longrightarrow> w < fresh s)
     \<and> (\<forall>w \<in> listening s. w < fresh s)
     \<and> (out_closed s \<and> armed s \<longrightarrow> windows s = [])
     \<and> (\<forall>w. WindowUnsubscribe w \<in> set (trace s) \<longrightarrow> out_closed s \<and> armed s)"



text \<open>
  The close procedure of window \<open>w\<close> has run: \<open>w\<close> is out of the registry, has had a
  terminal call, and its \<open>closingSubscription\<close> is unsubscribed, which has cancelled the
  closing listener if its handle had been added.
\<close>

definition closed_out :: "wid \<Rightarrow> ('o, 'v, 'e) state \<Rightarrow> bool" where
  "closed_out w s \<longleftrightarrow>
     w < fresh s \<and> w \<in> released s \<and> w \<notin> set (windows s) \<and> terminated w (trace s)
     \<and> (w \<in> attached s \<longrightarrow> w \<notin> listening s)"

section \<open>Properties\<close>

subsection \<open>Closed forms of the loops and handlers\<close>

lemma drain_eq:
  "drain call s = s\<lparr>windows := [], trace := trace s @ map call (windows s)\<rparr>"
proof (induction "windows s" arbitrary: s)
  case Nil
  then show ?case by (simp add: drain.simps[of call s])
next
  case (Cons w ws)
  from Cons(2) have ws: "windows s = w # ws" by simp
  have "drain call s = drain call (emit (call w) (s\<lparr>windows := ws\<rparr>))"
    using ws by (subst drain.simps) simp
  also have "\<dots> = (emit (call w) (s\<lparr>windows := ws\<rparr>))\<lparr>windows := [],
      trace := trace (emit (call w) (s\<lparr>windows := ws\<rparr>)) @ map call (windows (emit (call w) (s\<lparr>windows := ws\<rparr>)))\<rparr>"
    by (rule Cons(1)) (simp add: emit_def)
  also have "\<dots> = s\<lparr>windows := [], trace := trace s @ map call (windows s)\<rparr>"
    using ws by (simp add: emit_def)
  finally show ?case .
qed

lemma finalize_eq:
  "finalize s =
     (if armed s
      then s\<lparr>windows := [], trace := trace s @ map WindowUnsubscribe (windows s),
             out_closed := True, listening := {}\<rparr>
      else s\<lparr>out_closed := True, listening := {}\<rparr>)"
  by (simp add: finalize_def teardown_def drain_eq)

lemma handleError_eq:
  "handleError err s =
     (if out_closed s
      then s\<lparr>windows := [], trace := trace s @ map (\<lambda>w. WindowError w err) (windows s)\<rparr>
      else s\<lparr>windows := [],
             trace := trace s @ map (\<lambda>w. WindowError w err) (windows s) @ [OutError err],
             out_closed := True, listening := {}\<rparr>)"
  by (simp add: handleError_def subscriber_error_def drain_eq finalize_eq emit_def)

lemma on_source_complete_eq:
  "on_source_complete s =
     (if out_closed s
      then s\<lparr>windows := [], trace := trace s @ map WindowComplete (windows s)\<rparr>
      else s\<lparr>windows := [],
             trace := trace s @ map WindowComplete (windows s) @ [OutComplete],
             out_closed := True, listening := {}\<rparr>)"
  by (simp add: on_source_complete_def subscriber_complete_def drain_eq finalize_eq emit_def)

lemma closeWindow_eq:
  "closeWindow w s =
     s\<lparr>windows := remove1 w (windows s),
       trace := trace s @ [WindowComplete w, ClosingUnsubscribe w],
       released := insert w (released s),
       listening := (if w \<in> attached s then listening s - {w} else listening s)\<rparr>"
  by (simp add: closeWindow_def closingSubscription_unsubscribe_def emit_def arrRemove_def)

lemma subject_of_append:
  "subject_of w (tr @ tr') = foldl (subject_call w) (subject_of w tr) tr'"
  by (simp add: subject_of_def)

lemma status_subject_call:
  "status (subject_call w sb x) \<noteq> Open \<longleftrightarrow> status sb \<noteq> Open \<or> terminal_on w x"
  by (cases x) auto

lemma status_foldl_open:
  "status (foldl (subject_call w) sb tr) = Open \<longleftrightarrow> status sb = Open \<and> \<not> list_ex (terminal_on w) tr"
proof (induction tr arbitrary: sb)
  case Nil
  show ?case by simp
next
  case (Cons x tr)
  show ?case using status_subject_call[of w sb x] by (auto simp: Cons)
qed

lemma status_open_iff: "status (subject_of w tr) = Open \<longleftrightarrow> \<not> terminated w tr"
  by (simp add: subject_of_def terminated_def status_foldl_open)

lemma foldl_closed:
  "status sb \<noteq> Open \<Longrightarrow> foldl (subject_call w) sb tr = sb"
proof (induction tr)
  case Nil show ?case by simp
next
  case (Cons x tr)
  have "subject_call w sb x = sb" using Cons.prems by (cases x) auto
  then show ?case using Cons by simp
qed



lemma foldl_unsubscribe:
  "foldl (subject_call w) sb (map WindowUnsubscribe ws) =
     (if w \<in> set ws \<and> status sb = Open then sb\<lparr>status := Cancelled\<rparr> else sb)"
proof (induction ws arbitrary: sb)
  case Nil show ?case by simp
next
  case (Cons a ws)
  show ?case by (cases "status sb = Open") (auto simp: Cons foldl_closed)
qed

lemma exec_closed: "out_closed s \<Longrightarrow> exec sel e s = s"
  by (cases e) (simp_all add: closing_notify_def subscriber_unsubscribe_def)

lemma out_windows_append: "out_windows (tr @ tr') = out_windows tr @ out_windows tr'"
  by (induction tr rule: out_windows.induct) simp_all

lemma out_windows_map_error: "out_windows (map (\<lambda>w. WindowError w err) ws) = []"
  by (induction ws) simp_all

lemma selector_calls_append:
  "selector_calls (tr @ tr') = selector_calls tr @ selector_calls tr'"
  by (induction tr rule: selector_calls.induct) simp_all

lemma out_windows_map_complete: "out_windows (map WindowComplete ws) = []"
  by (induction ws) simp_all

lemma out_windows_map_unsubscribe: "out_windows (map WindowUnsubscribe ws) = []"
  by (induction ws) simp_all

lemma selector_calls_map_error: "selector_calls (map (\<lambda>w. WindowError w err) ws) = []"
  by (induction ws) simp_all

lemma selector_calls_map_complete: "selector_calls (map WindowComplete ws) = []"
  by (induction ws) simp_all

lemma selector_calls_map_unsubscribe: "selector_calls (map WindowUnsubscribe ws) = []"
  by (induction ws) simp_all

lemma nexts_map_error: "filter (is_next_of v) (map (\<lambda>w. WindowError w err) ws) = []"
  by (induction ws) simp_all

lemma nexts_map_complete: "filter (is_next_of v) (map WindowComplete ws) = []"
  by (induction ws) simp_all

lemma nexts_map_unsubscribe: "filter (is_next_of v) (map WindowUnsubscribe ws) = []"
  by (induction ws) simp_all

lemmas frame_simps =
  out_windows_append out_windows_map_error out_windows_map_complete out_windows_map_unsubscribe
  selector_calls_append selector_calls_map_error selector_calls_map_complete
  selector_calls_map_unsubscribe
  nexts_map_error nexts_map_complete nexts_map_unsubscribe

lemma closing_notify_frame:
  "fresh (closing_notify w c s) = fresh s
   \<and> openings_done (closing_notify w c s) = openings_done s
   \<and> out_windows (trace (closing_notify w c s)) = out_windows (trace s)
   \<and> selector_calls (trace (closing_notify w c s)) = selector_calls (trace s)
   \<and> filter (is_next_of v) (trace (closing_notify w c s)) = filter (is_next_of v) (trace s)"
  by (cases c) (simp_all add: closing_notify_def closeWindow_eq handleError_eq Let_def frame_simps)

lemma closing_deliver_frame:
  "fresh (closing_deliver w cs s) = fresh s
   \<and> openings_done (closing_deliver w cs s) = openings_done s
   \<and> out_windows (trace (closing_deliver w cs s)) = out_windows (trace s)
   \<and> selector_calls (trace (closing_deliver w cs s)) = selector_calls (trace s)
   \<and> filter (is_next_of v) (trace (closing_deliver w cs s)) = filter (is_next_of v) (trace s)"
  by (induction cs arbitrary: s) (simp_all add: closing_notify_frame)

lemma closing_notify_trace: "\<exists>rest. trace (closing_notify w c s) = trace s @ rest"
  by (cases c) (simp_all add: closing_notify_def closeWindow_eq handleError_eq Let_def)

lemma closing_deliver_trace: "\<exists>rest. trace (closing_deliver w cs s) = trace s @ rest"
proof (induction cs arbitrary: s)
  case Nil
  show ?case by simp
next
  case (Cons c cs)
  obtain r1 where r1: "trace (closing_notify w c s) = trace s @ r1"
    using closing_notify_trace by blast
  obtain r2 where r2: "trace (closing_deliver w cs (closing_notify w c s)) = trace (closing_notify w c s) @ r2"
    using Cons by blast
  show ?case by (simp add: r1 r2)
qed

lemma closingSubscription_add_trace [simp]: "trace (closingSubscription_add w s) = trace s"
  by (simp add: closingSubscription_add_def)


subsection \<open>The registry invariant\<close>

lemma terminated_append: "terminated w (tr @ tr') \<longleftrightarrow> terminated w tr \<or> terminated w tr'"
  by (simp add: terminated_def)

lemma terminated_Nil [simp]: "\<not> terminated w []"
  by (simp add: terminated_def)

lemma terminated_Cons: "terminated w (x # tr) \<longleftrightarrow> terminal_on w x \<or> terminated w tr"
  by (simp add: terminated_def)

lemma terminated_map_error: "terminated w (map (\<lambda>w. WindowError w err) ws) \<longleftrightarrow> w \<in> set ws"
  by (induction ws) (auto simp: terminated_Cons)

lemma terminated_map_complete: "terminated w (map WindowComplete ws) \<longleftrightarrow> w \<in> set ws"
  by (induction ws) (auto simp: terminated_Cons)

lemma terminated_map_unsubscribe: "terminated w (map WindowUnsubscribe ws) \<longleftrightarrow> w \<in> set ws"
  by (induction ws) (auto simp: terminated_Cons)

lemmas terminated_simps =
  terminated_append terminated_Cons terminated_map_error terminated_map_complete
  terminated_map_unsubscribe

lemma unsubscribed_terminated: "WindowUnsubscribe w \<in> set tr \<Longrightarrow> terminated w tr"
  by (induction tr) (auto simp: terminated_Cons)

lemma remove1_filter:
  "distinct xs \<Longrightarrow> remove1 w (filter P xs) = filter (\<lambda>x. P x \<and> x \<noteq> w) xs"
proof (induction xs)
  case Nil
  show ?case by simp
next
  case (Cons x xs)
  then have "w \<notin> set xs" if "x = w" using that by simp
  then have "filter (\<lambda>x. P x \<and> x \<noteq> w) xs = filter P xs" if "x = w"
    using that by (auto intro: filter_cong)
  then show ?case using Cons by auto
qed

lemma inv_quiet:
  assumes "registry_inv s" and "\<And>w. \<not> terminated w d"
  shows "registry_inv (s\<lparr>trace := trace s @ d\<rparr>)"
proof -
  have "WindowUnsubscribe w \<notin> set d" for w
    using assms(2) unsubscribed_terminated by blast
  then show ?thesis
    using assms by (auto simp: registry_inv_def terminated_append)
qed

lemma inv_listening:
  assumes "registry_inv s" and "L \<subseteq> listening s"
  shows "registry_inv (s\<lparr>listening := L\<rparr>)"
  using assms by (auto simp: registry_inv_def)

lemma inv_other_fields:
  assumes "registry_inv s"
  shows "registry_inv (s\<lparr>released := R\<rparr>)" and "registry_inv (s\<lparr>attached := A\<rparr>)"
    and "registry_inv (s\<lparr>openings_done := b\<rparr>)"
  using assms by (auto simp: registry_inv_def)

lemma inv_drained:
  assumes "registry_inv s" and "\<And>w. terminated w d \<longleftrightarrow> w \<in> set (windows s)"
    and "\<And>w. WindowUnsubscribe w \<in> set d \<Longrightarrow> armed s"
  shows "registry_inv (s\<lparr>windows := [], trace := trace s @ d, out_closed := True, listening := {}\<rparr>)"
    and "(\<And>w. WindowUnsubscribe w \<notin> set d) \<Longrightarrow>
           registry_inv (s\<lparr>windows := [], trace := trace s @ d\<rparr>)"
proof -
  have mem: "w \<in> set (windows s) \<longleftrightarrow> w < fresh s \<and> \<not> terminated w (trace s)" for w
    using assms(1) by (auto simp: registry_inv_def)
  have f: "filter (\<lambda>w. \<not> terminated w (trace s @ d)) [0..<fresh s] = []"
    by (auto simp: filter_empty_conv terminated_append assms(2) mem)
  have t: "\<forall>w. terminated w (trace s @ d) \<longrightarrow> w < fresh s"
    using assms(1) by (auto simp: terminated_append assms(2) mem registry_inv_def)
  have l: "\<forall>w \<in> listening s. w < fresh s"
    using assms(1) by (simp add: registry_inv_def)
  have u: "\<forall>w. WindowUnsubscribe w \<in> set (trace s) \<longrightarrow> out_closed s \<and> armed s"
    using assms(1) by (simp add: registry_inv_def)
  show "registry_inv (s\<lparr>windows := [], trace := trace s @ d, out_closed := True, listening := {}\<rparr>)"
    using f t u assms(3) by (auto simp: registry_inv_def)
  show "registry_inv (s\<lparr>windows := [], trace := trace s @ d\<rparr>)"
    if "\<And>w. WindowUnsubscribe w \<notin> set d"
    using f t l u that by (auto simp: registry_inv_def)
qed

lemma inv_handleError: "registry_inv s \<Longrightarrow> registry_inv (handleError err s)"
  using inv_drained(2)[of s "map (\<lambda>w. WindowError w err) (windows s)"]
        inv_drained(1)[of s "map (\<lambda>w. WindowError w err) (windows s) @ [OutError err]"]
  by (auto simp: handleError_eq terminated_simps)

lemma inv_on_source_complete: "registry_inv s \<Longrightarrow> registry_inv (on_source_complete s)"
  using inv_drained(2)[of s "map WindowComplete (windows s)"]
        inv_drained(1)[of s "map WindowComplete (windows s) @ [OutComplete]"]
  by (auto simp: on_source_complete_eq terminated_simps)

lemma inv_finalize: "registry_inv s \<Longrightarrow> registry_inv (finalize s)"
proof (cases "armed s")
  case True
  assume "registry_inv s"
  then show ?thesis
    using True inv_drained(1)[of s "map WindowUnsubscribe (windows s)"]
    by (simp add: finalize_eq terminated_simps)
next
  case False
  assume "registry_inv s"
  then show ?thesis
    using False by (auto simp: finalize_eq registry_inv_def)
qed

lemma inv_subscriber_error: "registry_inv s \<Longrightarrow> registry_inv (subscriber_error err s)"
  using inv_finalize[of "emit (OutError err) s"] inv_quiet[of s "[OutError err]"]
  by (simp add: subscriber_error_def emit_def terminated_simps)

lemma inv_subscriber_next: "registry_inv s \<Longrightarrow> registry_inv (subscriber_next x s)"
  using inv_quiet[of s "[OutNext x]"]
  by (simp add: subscriber_next_def emit_def terminated_simps)

lemma inv_closeWindow:
  assumes "registry_inv s" and "w < fresh s"
  shows "registry_inv (closeWindow w s)"
proof -
  have "remove1 w (windows s) =
        filter (\<lambda>x. \<not> terminated x (trace s @ [WindowComplete w, ClosingUnsubscribe w])) [0..<fresh s]"
    using assms(1) remove1_filter[of "[0..<fresh s]" w "\<lambda>w. \<not> terminated w (trace s)"]
    by (auto simp: registry_inv_def terminated_simps intro: filter_cong)
  moreover have "out_closed s \<and> armed s \<longrightarrow> remove1 w (windows s) = []"
    using assms(1) by (auto simp: registry_inv_def)
  ultimately show ?thesis
    using assms by (auto simp: registry_inv_def closeWindow_eq terminated_simps)
qed

lemma inv_closing_notify: "registry_inv s \<Longrightarrow> registry_inv (closing_notify w c s)"
proof (cases "out_closed s \<or> w \<notin> listening s")
  case True
  assume "registry_inv s"
  with True show ?thesis by (simp add: closing_notify_def)
next
  case False
  assume inv: "registry_inv s"
  with False have w: "w < fresh s" by (auto simp: registry_inv_def)
  show ?thesis
  proof (cases c)
    case CNext
    with False show ?thesis using inv_closeWindow[OF inv w] by (simp add: closing_notify_def)
  next
    case (CError err)
    with False show ?thesis
      using inv_listening[OF inv_handleError[OF inv, of err], of "listening (handleError err s) - {w}"]
      by (simp add: closing_notify_def Let_def)
  next
    case CComplete
    with False show ?thesis
      using inv_listening[OF inv_closeWindow[OF inv w], of "listening (closeWindow w s) - {w}"]
      by (simp add: closing_notify_def Let_def)
  qed
qed

lemma inv_closing_deliver: "registry_inv s \<Longrightarrow> registry_inv (closing_deliver w cs s)"
  by (induction cs arbitrary: s) (simp_all add: inv_closing_notify)

lemma inv_closing_subscribe:
  assumes "registry_inv s" and "w < fresh s"
  shows "registry_inv (closing_subscribe w sync s)"
proof -
  have i1: "registry_inv (s\<lparr>trace := trace s @ [ClosingSubscribe w]\<rparr>)"
    by (rule inv_quiet[OF assms(1)]) (simp add: terminated_simps)
  then have "registry_inv (s\<lparr>trace := trace s @ [ClosingSubscribe w],
                              listening := insert w (listening s)\<rparr>)"
    using assms(2) by (auto simp: registry_inv_def)
  then have "registry_inv (closing_deliver w sync (s\<lparr>trace := trace s @ [ClosingSubscribe w],
                              listening := insert w (listening s)\<rparr>))"
    by (rule inv_closing_deliver)
  then show ?thesis
    using i1 by (simp add: closing_subscribe_def Let_def emit_def)
qed

lemma inv_closingSubscription_add:
  "registry_inv s \<Longrightarrow> registry_inv (closingSubscription_add w s)"
  using inv_listening[of s "listening s - {w}"] inv_other_fields(2)[of s]
  by (simp add: closingSubscription_add_def)

lemma opened_eq:
  "opened ov s = s\<lparr>fresh := Suc (fresh s), windows := windows s @ [fresh s],
                   trace := trace s @ [WindowNew (fresh s), SelectorCall ov]\<rparr>"
  by (simp add: opened_def Let_def emit_def)

lemma inv_opened:
  assumes "registry_inv s" and "\<not> out_closed s"
  shows "registry_inv (opened ov s)"
proof -
  have "\<not> terminated (fresh s) (trace s)"
    using assms(1) by (auto simp: registry_inv_def)
  then show ?thesis
    using assms by (auto simp: opened_eq registry_inv_def terminated_simps less_Suc_eq)
qed

lemma on_opening_opened:
  "on_opening sel ov s =
     (case sel ov of
        Inl err \<Rightarrow> handleError err (opened ov s)
      | Inr sync \<Rightarrow>
          closingSubscription_add (fresh s)
            (closing_subscribe (fresh s) sync
              (subscriber_next (AsObservable (fresh s)) (opened ov s))))"
  by (cases "sel ov") (simp_all add: on_opening_def opened_def Let_def)

lemma fresh_subscriber_next [simp]: "fresh (subscriber_next x s) = fresh s"
  by (simp add: subscriber_next_def emit_def)

lemma inv_on_opening:
  assumes "registry_inv s" and "\<not> out_closed s"
  shows "registry_inv (on_opening sel ov s)"
proof (cases "sel ov")
  case (Inl err)
  then show ?thesis
    using inv_handleError[OF inv_opened[OF assms, of ov], of err]
    by (simp add: on_opening_opened)
next
  case (Inr sync)
  have "registry_inv (subscriber_next (AsObservable (fresh s)) (opened ov s))"
    by (rule inv_subscriber_next[OF inv_opened[OF assms]])
  then have "registry_inv (closing_subscribe (fresh s) sync
               (subscriber_next (AsObservable (fresh s)) (opened ov s)))"
    by (rule inv_closing_subscribe) (simp add: opened_eq)
  then show ?thesis
    using Inr by (simp add: on_opening_opened inv_closingSubscription_add)
qed

lemma fresh_mono:
  "fresh s \<le> fresh (exec sel e s)"
  "fresh s \<le> fresh (exec_all sel es s)"
  "fresh s \<le> fresh (fan_out sel v ws rs s)"
proof (induction sel e s and sel es s and sel v ws rs s rule: exec_exec_all_fan_out.induct)
  case (1 sel ov s)
  then show ?case
    by (cases "sel ov")
       (simp_all add: on_opening_opened opened_eq handleError_eq closingSubscription_add_def
          closing_subscribe_def Let_def emit_def closing_deliver_frame)
next
  case (9 sel ov r s)
  show ?case
  proof (cases "out_closed s \<or> openings_done s")
    case True
    then show ?thesis by simp
  next
    case False
    show ?thesis
    proof (cases "sel ov")
      case (Inl err)
      then show ?thesis using False by (simp add: opened_eq handleError_eq)
    next
      case (Inr sync)
      have "fresh s \<le> fresh (subscriber_next (AsObservable (fresh s)) (opened ov s))"
        by (simp add: opened_eq)
      also have "\<dots> \<le> fresh (exec_all sel r (subscriber_next (AsObservable (fresh s)) (opened ov s)))"
        using 9[of sync] False Inr by simp
      finally show ?thesis
        using False Inr
        by (simp add: closingSubscription_add_def closing_subscribe_def Let_def emit_def
            closing_deliver_frame)
    qed
  qed
next
  case (12 sel e es s)
  then show ?case using le_trans by fastforce
next
  case (14 sel v window windowsCopy s)
  then show ?case by (auto simp: emit_def)
next
  case (15 sel v window windowsCopy r rs s)
  show ?case
  proof (cases "WindowUnsubscribe window \<in> set (trace s)")
    case True
    then show ?thesis by (simp add: emit_def)
  next
    case False
    let ?s1 = "if terminated window (trace s) then emit (WindowNext window v) s
               else exec_all sel r (emit (WindowNext window v) s)"
    have "fresh s \<le> fresh ?s1"
      using 15(1)[OF False] by (simp add: emit_def)
    also have "\<dots> \<le> fresh (fan_out sel v windowsCopy rs ?s1)"
      using 15(2)[OF False] .
    finally show ?thesis using False by simp
  qed
qed (simp_all add: on_opening_error_def subscriber_error_def finalize_eq emit_def
      on_opening_complete_def handleError_eq on_source_complete_eq closing_notify_frame
      subscriber_unsubscribe_def)

lemma inv_exec_all_fan_out:
  "registry_inv s \<Longrightarrow> registry_inv (exec sel e s)"
  "registry_inv s \<Longrightarrow> registry_inv (exec_all sel es s)"
  "registry_inv s \<Longrightarrow> registry_inv (fan_out sel v ws rs s)"
proof (induction sel e s and sel es s and sel v ws rs s rule: exec_exec_all_fan_out.induct)
  case (2 sel err s)
  then show ?case
    using inv_subscriber_error[OF inv_other_fields(3)[OF 2, of True], of err]
    by (simp add: on_opening_error_def)
next
  case (8 sel s)
  then show ?case using inv_finalize[of s] by (simp add: subscriber_unsubscribe_def)
next
  case (9 sel ov r s)
  note inv = \<open>registry_inv s\<close>
  show ?case
  proof (cases "out_closed s \<or> openings_done s")
    case True
    then show ?thesis using inv by simp
  next
    case False
    then have live: "\<not> out_closed s" by simp
    show ?thesis
    proof (cases "sel ov")
      case (Inl err)
      then show ?thesis
        using False inv_handleError[OF inv_opened[OF inv live, of ov], of err] by simp
    next
      case (Inr sync)
      let ?s3 = "subscriber_next (AsObservable (fresh s)) (opened ov s)"
      have i3: "registry_inv ?s3"
        by (rule inv_subscriber_next[OF inv_opened[OF inv live]])
      have i4: "registry_inv (exec_all sel r ?s3)"
        using 9(1)[OF False Inr i3] .
      have "fresh s < fresh ?s3" by (simp add: opened_eq)
      also have "\<dots> \<le> fresh (exec_all sel r ?s3)" by (rule fresh_mono(2))
      finally have "registry_inv (closing_subscribe (fresh s) sync (exec_all sel r ?s3))"
        using inv_closing_subscribe[OF i4] by simp
      then show ?thesis
        using False Inr by (simp add: inv_closingSubscription_add)
    qed
  qed
next
  case (10 sel s)
  then show ?case by (auto simp: registry_inv_def)
next
  case (14 sel v window windowsCopy s)
  then show ?case using inv_quiet[of s "[WindowNext window v]"]
    by (auto simp: emit_def terminated_simps)
next
  case (15 sel v window windowsCopy r rs s)
  have e: "registry_inv (emit (WindowNext window v) s)"
    using 15(3) inv_quiet[of s "[WindowNext window v]"] by (simp add: emit_def terminated_simps)
  show ?case
  proof (cases "WindowUnsubscribe window \<in> set (trace s)")
    case True
    then show ?thesis using e by simp
  next
    case False
    have "registry_inv (if terminated window (trace s) then emit (WindowNext window v) s
               else exec_all sel r (emit (WindowNext window v) s))"
      using 15(1)[OF False _ e] e by simp
    then show ?thesis using 15(2)[OF False] False by simp
  qed
qed (simp_all add: inv_on_opening inv_other_fields on_opening_complete_def inv_handleError
      inv_on_source_complete inv_closing_notify)

lemma inv_start: "registry_inv start"
  by (simp add: registry_inv_def start_def)

lemma inv_reachable: "registry_inv (exec_all sel es start)"
  by (rule inv_exec_all_fan_out(2)[OF inv_start])

lemma reachable_registry:
  "distinct (windows (exec_all sel es start))
   \<and> (\<forall>w \<in> set (windows (exec_all sel es start)).
         w < fresh (exec_all sel es start) \<and> \<not> terminated w (trace (exec_all sel es start)))
   \<and> \<not> terminated (fresh (exec_all sel es start)) (trace (exec_all sel es start))"
proof -
  have inv: "registry_inv (exec_all sel es start)" by (rule inv_reachable)
  have "distinct (filter (\<lambda>w. \<not> terminated w (trace (exec_all sel es start)))
          [0..<fresh (exec_all sel es start)])"
    by simp
  then show ?thesis using inv by (auto simp: registry_inv_def)
qed

subsection \<open>The calls of a fan-out\<close>

text \<open>The trace only grows.\<close>

lemma trace_emit: "trace (emit x s) = trace s @ [x]"
  by (simp add: emit_def)

lemma on_opening_trace: "\<exists>d. trace (on_opening sel ov s) = trace s @ d"
proof (cases "sel ov")
  case (Inl err)
  then show ?thesis by (simp add: on_opening_opened opened_eq handleError_eq)
next
  case (Inr sync)
  obtain d where "trace (closing_deliver (fresh s) sync
      ((emit (ClosingSubscribe (fresh s)) (subscriber_next (AsObservable (fresh s)) (opened ov s)))
         \<lparr>listening := insert (fresh s) (listening (subscriber_next (AsObservable (fresh s)) (opened ov s)))\<rparr>)) =
      trace ((emit (ClosingSubscribe (fresh s)) (subscriber_next (AsObservable (fresh s)) (opened ov s)))
         \<lparr>listening := insert (fresh s) (listening (subscriber_next (AsObservable (fresh s)) (opened ov s)))\<rparr>) @ d"
    using closing_deliver_trace by blast
  then show ?thesis
    using Inr
    by (simp add: on_opening_opened opened_eq closing_subscribe_def Let_def emit_def
        subscriber_next_def)
qed

lemma closing_subscribe_trace: "\<exists>d. trace (closing_subscribe w sync s) = trace s @ d"
proof -
  obtain d where "trace (closing_deliver w sync
      ((emit (ClosingSubscribe w) s)\<lparr>listening := insert w (listening s)\<rparr>)) =
      trace ((emit (ClosingSubscribe w) s)\<lparr>listening := insert w (listening s)\<rparr>) @ d"
    using closing_deliver_trace by blast
  then show ?thesis by (simp add: closing_subscribe_def Let_def emit_def)
qed

lemma trace_grows:
  "\<exists>d. trace (exec sel e s) = trace s @ d"
  "\<exists>d. trace (exec_all sel es s) = trace s @ d"
  "\<exists>d. trace (fan_out sel v ws rs s) = trace s @ d"
proof (induction sel e s and sel es s and sel v ws rs s rule: exec_exec_all_fan_out.induct)
  case (1 sel ov s)
  then show ?case using on_opening_trace[of sel ov s] by simp
next
  case (7 sel w c s)
  then show ?case using closing_notify_trace by simp
next
  case (9 sel ov r s)
  show ?case
  proof (cases "out_closed s \<or> openings_done s")
    case True
    then show ?thesis by simp
  next
    case False
    show ?thesis
    proof (cases "sel ov")
      case (Inl err)
      then show ?thesis using False by (simp add: opened_eq handleError_eq)
    next
      case (Inr sync)
      let ?s3 = "subscriber_next (AsObservable (fresh s)) (opened ov s)"
      have "\<exists>d3. trace ?s3 = trace s @ d3"
        using False by (simp add: subscriber_next_def opened_eq emit_def)
      then obtain d3 where d3: "trace ?s3 = trace s @ d3" by blast
      obtain d4 where d4: "trace (exec_all sel r ?s3) = trace ?s3 @ d4"
        using 9[OF False Inr] by blast
      obtain d5 where d5: "trace (closing_subscribe (fresh s) sync (exec_all sel r ?s3)) =
          trace (exec_all sel r ?s3) @ d5"
        using closing_subscribe_trace by blast
      show ?thesis using False Inr by (simp add: d3 d4 d5)
    qed
  qed
next
  case (12 sel e es s)
  obtain d1 where d1: "trace (exec sel e s) = trace s @ d1" using 12(1) by blast
  obtain d2 where d2: "trace (exec_all sel es (exec sel e s)) = trace (exec sel e s) @ d2"
    using 12(2) by blast
  show ?case by (simp add: d1 d2)
next
  case (14 sel v window windowsCopy s)
  show ?case
  proof (cases "WindowUnsubscribe window \<in> set (trace s)")
    case True
    then show ?thesis by (simp add: emit_def)
  next
    case False
    obtain d where "trace (fan_out sel v windowsCopy [] (emit (WindowNext window v) s)) =
        trace (emit (WindowNext window v) s) @ d"
      using 14[OF False] by blast
    then show ?thesis using False by (simp add: trace_emit)
  qed
next
  case (15 sel v window windowsCopy r rs s)
  show ?case
  proof (cases "WindowUnsubscribe window \<in> set (trace s)")
    case True
    then show ?thesis by (simp add: emit_def)
  next
    case False
    let ?s1 = "if terminated window (trace s) then emit (WindowNext window v) s
               else exec_all sel r (emit (WindowNext window v) s)"
    have "\<exists>d1. trace ?s1 = trace (emit (WindowNext window v) s) @ d1"
      using 15(1)[OF False] by simp
    then obtain d1 where d1: "trace ?s1 = trace (emit (WindowNext window v) s) @ d1" by blast
    obtain d2 where d2: "trace (fan_out sel v windowsCopy rs ?s1) = trace ?s1 @ d2"
      using 15(2)[OF False] by blast
    have "trace (fan_out sel v (window # windowsCopy) (r # rs) s) =
          trace s @ WindowNext window v # d1 @ d2"
      using False d1 d2 by (simp add: trace_emit)
    then show ?thesis by blast
  qed
qed (simp_all add: on_opening_error_def subscriber_error_def finalize_eq emit_def
      on_opening_complete_def handleError_eq on_source_complete_eq subscriber_unsubscribe_def)

text \<open>Which windows a fan-out calls.\<close>

lemma on_opening_nexts:
  "filter (is_next_of u) (trace (on_opening sel ov s)) = filter (is_next_of u) (trace s)"
  by (cases "sel ov")
     (simp_all add: on_opening_opened opened_eq emit_def handleError_eq frame_simps
        subscriber_next_def closing_subscribe_def closing_deliver_frame Let_def)

lemma closing_subscribe_nexts:
  "filter (is_next_of u) (trace (closing_subscribe w sync s)) = filter (is_next_of u) (trace s)"
  by (simp add: closing_subscribe_def Let_def emit_def closing_deliver_frame)

lemma no_emit_nexts:
  "\<not> emits u e \<Longrightarrow>
     filter (is_next_of u) (trace (exec sel e s)) = filter (is_next_of u) (trace s)"
  "\<forall>e \<in> set es. \<not> emits u e \<Longrightarrow>
     filter (is_next_of u) (trace (exec_all sel es s)) = filter (is_next_of u) (trace s)"
  "v \<noteq> u \<Longrightarrow> \<forall>r \<in> set rs. \<forall>e \<in> set r. \<not> emits u e \<Longrightarrow>
     filter (is_next_of u) (trace (fan_out sel v ws rs s)) = filter (is_next_of u) (trace s)"
proof (induction sel e s and sel es s and sel v ws rs s rule: exec_exec_all_fan_out.induct)
  case (1 sel ov s)
  then show ?case by (simp add: on_opening_nexts)
next
  case (4 sel v rs s)
  then show ?case by auto
next
  case (7 sel w c s)
  then show ?case by (simp add: closing_notify_frame)
next
  case (9 sel ov r s)
  show ?case
  proof (cases "out_closed s \<or> openings_done s")
    case True
    then show ?thesis by simp
  next
    case False
    show ?thesis
    proof (cases "sel ov")
      case (Inl err)
      then show ?thesis using False by (simp add: opened_eq handleError_eq frame_simps)
    next
      case (Inr sync)
      have "\<forall>e \<in> set r. \<not> emits u e" using 9(2) by simp
      then show ?thesis
        using False Inr 9(1)[OF False Inr]
        by (simp add: closing_subscribe_nexts subscriber_next_def opened_eq emit_def)
    qed
  qed
next
  case (14 sel v window windowsCopy s)
  then show ?case by (auto simp: emit_def)
next
  case (15 sel v window windowsCopy r rs s)
  show ?case
  proof (cases "WindowUnsubscribe window \<in> set (trace s)")
    case True
    then show ?thesis using 15(3) by (simp add: emit_def)
  next
    case False
    have r: "\<forall>e \<in> set r. \<not> emits u e" and rs: "\<forall>r \<in> set rs. \<forall>e \<in> set r. \<not> emits u e"
      using 15(4) by simp_all
    let ?s1 = "if terminated window (trace s) then emit (WindowNext window v) s
               else exec_all sel r (emit (WindowNext window v) s)"
    have "filter (is_next_of u) (trace ?s1) = filter (is_next_of u) (trace s)"
      using 15(1)[OF False _ r] 15(3) by (simp add: emit_def)
    then show ?thesis
      using False 15(2)[OF False 15(3) rs] by simp
  qed
qed (simp_all add: on_opening_error_def subscriber_error_def finalize_eq emit_def
      on_opening_complete_def handleError_eq on_source_complete_eq subscriber_unsubscribe_def
      frame_simps)

lemma fan_out_calls:
  assumes "registry_inv s" and "\<forall>r \<in> set rs. \<forall>e \<in> set r. \<not> emits v e"
  shows "\<exists>k. filter (is_next_of v) (trace (fan_out sel v ws rs s)) =
               filter (is_next_of v) (trace s) @ map (\<lambda>w. WindowNext w v) (take k ws)
             \<and> (k < length ws \<longrightarrow>
                  out_closed (fan_out sel v ws rs s) \<and> armed (fan_out sel v ws rs s))"
  using assms
proof (induction ws arbitrary: rs s)
  case Nil
  show ?case by simp
next
  case (Cons w ws)
  show ?case
  proof (cases "WindowUnsubscribe w \<in> set (trace s)")
    case True
    then have closed: "out_closed s \<and> armed s"
      using Cons.prems(1) by (auto simp: registry_inv_def)
    have "fan_out sel v (w # ws) rs s = emit (WindowNext w v) s"
      using True by (cases rs) simp_all
    then have "filter (is_next_of v) (trace (fan_out sel v (w # ws) rs s)) =
               filter (is_next_of v) (trace s) @ map (\<lambda>w. WindowNext w v) (take 1 (w # ws))
             \<and> (1 < length (w # ws) \<longrightarrow>
                  out_closed (fan_out sel v (w # ws) rs s) \<and> armed (fan_out sel v (w # ws) rs s))"
      using closed by (simp add: emit_def)
    then show ?thesis by blast
  next
    case False
    define r where "r = (case rs of [] \<Rightarrow> [] | r # _ \<Rightarrow> r)"
    define rs' where "rs' = (case rs of [] \<Rightarrow> [] | _ # rs' \<Rightarrow> rs')"
    define s1 where "s1 = (if rs = [] \<or> terminated w (trace s) then emit (WindowNext w v) s
                           else exec_all sel r (emit (WindowNext w v) s))"
    have step: "fan_out sel v (w # ws) rs s = fan_out sel v ws rs' s1"
      using False by (cases rs) (simp_all add: r_def rs'_def s1_def)
    have r: "\<forall>e \<in> set r. \<not> emits v e" and rs': "\<forall>r \<in> set rs'. \<forall>e \<in> set r. \<not> emits v e"
      using Cons.prems(2) by (cases rs; simp add: r_def rs'_def)+
    have "registry_inv (emit (WindowNext w v) s)"
      using inv_quiet[OF Cons.prems(1), of "[WindowNext w v]"]
      by (simp add: emit_def terminated_simps)
    then have inv1: "registry_inv s1"
      unfolding s1_def by (simp add: inv_exec_all_fan_out(2))
    have n1: "filter (is_next_of v) (trace s1) = filter (is_next_of v) (trace s) @ [WindowNext w v]"
      unfolding s1_def using no_emit_nexts(2)[OF r] by (simp add: emit_def)
    obtain k where k: "filter (is_next_of v) (trace (fan_out sel v ws rs' s1)) =
               filter (is_next_of v) (trace s1) @ map (\<lambda>w. WindowNext w v) (take k ws)"
      and kc: "k < length ws \<longrightarrow>
                  out_closed (fan_out sel v ws rs' s1) \<and> armed (fan_out sel v ws rs' s1)"
      using Cons.IH[OF inv1 rs'] by blast
    have "filter (is_next_of v) (trace (fan_out sel v (w # ws) rs s)) =
               filter (is_next_of v) (trace s) @ map (\<lambda>w. WindowNext w v) (take (Suc k) (w # ws))
             \<and> (Suc k < length (w # ws) \<longrightarrow>
                  out_closed (fan_out sel v (w # ws) rs s) \<and> armed (fan_out sel v (w # ws) rs s))"
      using k kc by (simp add: step n1)
    then show ?thesis by blast
  qed
qed

text \<open>What a window has received.\<close>

lemma received_bounds:
  "count_list (received sb) v \<le> count_list (received (foldl (subject_call w) sb d)) v
   \<and> count_list (received (foldl (subject_call w) sb d)) v
       \<le> count_list (received sb) v + length (filter (\<lambda>x. x = WindowNext w v) d)"
proof (induction d arbitrary: sb)
  case Nil
  show ?case by simp
next
  case (Cons x d)
  have "count_list (received sb) v \<le> count_list (received (subject_call w sb x)) v
        \<and> count_list (received (subject_call w sb x)) v
            \<le> count_list (received sb) v + (if x = WindowNext w v then 1 else 0)"
    by (cases x) auto
  then show ?case using Cons[of "subject_call w sb x"] by (simp split: if_splits)
qed

lemma received_exact:
  "status sb = Open \<Longrightarrow> \<not> terminated w d \<Longrightarrow>
   count_list (received (foldl (subject_call w) sb d)) v
     = count_list (received sb) v + length (filter (\<lambda>x. x = WindowNext w v) d)"
proof (induction d arbitrary: sb)
  case Nil
  show ?case by simp
next
  case (Cons x d)
  have nt: "\<not> terminal_on w x" "\<not> terminated w d"
    using Cons.prems(2) by (simp_all add: terminated_Cons)
  have st: "status (subject_call w sb x) = Open"
    using status_subject_call[of w sb x] Cons.prems(1) nt(1) by simp
  have "count_list (received (subject_call w sb x)) v
            = count_list (received sb) v + (if x = WindowNext w v then 1 else 0)"
    using Cons.prems(1) by (cases x) auto
  then show ?case using Cons.IH[OF st nt(2)] by (simp split: if_splits)
qed

lemma one_call_filter:
  "distinct ws \<Longrightarrow>
   length (filter (\<lambda>x. x = WindowNext w v) (map (\<lambda>w. WindowNext w v) ws))
     = (if w \<in> set ws then 1 else 0)"
  by (induction ws) auto

lemma filter_eq_is_next:
  "filter (\<lambda>x. x = WindowNext w v) (filter (is_next_of v) d) = filter (\<lambda>x. x = WindowNext w v) d"
  by (induction d) auto

subsection \<open>The emission invariant\<close>
















subsection \<open>After the close procedure has run\<close>

lemma emit_fields:
  "windows (emit x s) = windows s" "fresh (emit x s) = fresh s"
  "out_closed (emit x s) = out_closed s" "openings_done (emit x s) = openings_done s"
  "released (emit x s) = released s" "attached (emit x s) = attached s"
  "listening (emit x s) = listening s" "armed (emit x s) = armed s"
  by (simp_all add: emit_def)

lemma co_trace:
  assumes "closed_out w s"
  shows "closed_out w (s\<lparr>trace := trace s @ d\<rparr>)"
  using assms by (auto simp: closed_out_def terminated_append)

lemma co_handleError: "closed_out w s \<Longrightarrow> closed_out w (handleError err s)"
  by (auto simp: closed_out_def handleError_eq terminated_append)

lemma co_on_source_complete: "closed_out w s \<Longrightarrow> closed_out w (on_source_complete s)"
  by (auto simp: closed_out_def on_source_complete_eq terminated_append)

lemma co_finalize: "closed_out w s \<Longrightarrow> closed_out w (finalize s)"
  by (auto simp: closed_out_def finalize_eq terminated_append)

lemma co_closeWindow: "closed_out w s \<Longrightarrow> closed_out w (closeWindow w' s)"
  by (auto simp: closed_out_def closeWindow_eq terminated_append dest: notin_set_remove1)

lemma co_closing_notify: "closed_out w s \<Longrightarrow> closed_out w (closing_notify w' c s)"
  using co_closeWindow[of w s w'] co_handleError[of w s]
  by (cases c) (auto simp: closing_notify_def Let_def closed_out_def)

lemma co_closing_deliver: "closed_out w s \<Longrightarrow> closed_out w (closing_deliver w' cs s)"
  by (induction cs arbitrary: s) (simp_all add: co_closing_notify)

lemma co_opened: "closed_out w s \<Longrightarrow> closed_out w (opened ov s)"
  by (auto simp: closed_out_def opened_eq terminated_append)

lemma co_subscriber_next: "closed_out w s \<Longrightarrow> closed_out w (subscriber_next x s)"
  by (auto simp: closed_out_def subscriber_next_def emit_def terminated_append)

lemma co_closing_subscribe:
  assumes "closed_out w s" and "w \<noteq> w'"
  shows "closed_out w (closing_subscribe w' sync s)"
proof -
  have "closed_out w ((emit (ClosingSubscribe w') s)\<lparr>listening := insert w' (listening s)\<rparr>)"
    using assms by (auto simp: closed_out_def emit_def terminated_append)
  then have "closed_out w (closing_deliver w' sync
      ((emit (ClosingSubscribe w') s)\<lparr>listening := insert w' (listening s)\<rparr>))"
    by (rule co_closing_deliver)
  moreover have "closed_out w (emit (ClosingSubscribe w') s)"
    using assms by (auto simp: closed_out_def emit_def terminated_append)
  ultimately show ?thesis by (simp add: closing_subscribe_def Let_def emit_fields)
qed

lemma co_closingSubscription_add:
  assumes "closed_out w s" and "w \<noteq> w'"
  shows "closed_out w (closingSubscription_add w' s)"
  using assms by (auto simp: closed_out_def closingSubscription_add_def)

lemma co_fresh: "closed_out w s \<Longrightarrow> w < fresh s"
  by (simp add: closed_out_def)

lemma co_on_opening:
  assumes "closed_out w s"
  shows "closed_out w (on_opening sel ov s)"
proof (cases "sel ov")
  case (Inl err)
  then show ?thesis
    using co_handleError[OF co_opened[OF assms]] by (simp add: on_opening_opened)
next
  case (Inr sync)
  have ne: "w \<noteq> fresh s" using assms by (auto simp: closed_out_def)
  have "closed_out w (closing_subscribe (fresh s) sync
          (subscriber_next (AsObservable (fresh s)) (opened ov s)))"
    by (rule co_closing_subscribe[OF co_subscriber_next[OF co_opened[OF assms]] ne])
  then show ?thesis
    using Inr ne by (simp add: on_opening_opened co_closingSubscription_add)
qed

lemma co_exec_all_fan_out:
  "closed_out w s \<Longrightarrow> closed_out w (exec sel e s)"
  "closed_out w s \<Longrightarrow> closed_out w (exec_all sel es s)"
  "closed_out w s \<Longrightarrow> closed_out w (fan_out sel v ws rs s)"
proof (induction sel e s and sel es s and sel v ws rs s rule: exec_exec_all_fan_out.induct)
  case (2 sel err s)
  then show ?case
    by (auto simp: closed_out_def on_opening_error_def subscriber_error_def finalize_eq
        emit_def terminated_append)
next
  case (3 sel s)
  then show ?case by (auto simp: closed_out_def on_opening_complete_def)
next
  case (8 sel s)
  then show ?case using co_finalize[of w s] by (simp add: subscriber_unsubscribe_def)
next
  case (9 sel ov r s)
  note co = \<open>closed_out w s\<close>
  show ?case
  proof (cases "out_closed s \<or> openings_done s")
    case True
    then show ?thesis using co by simp
  next
    case False
    show ?thesis
    proof (cases "sel ov")
      case (Inl err)
      then show ?thesis using False co_handleError[OF co_opened[OF co]] by simp
    next
      case (Inr sync)
      have ne: "w \<noteq> fresh s" using co by (auto simp: closed_out_def)
      have "closed_out w (exec_all sel r (subscriber_next (AsObservable (fresh s)) (opened ov s)))"
        using 9(1)[OF False Inr co_subscriber_next[OF co_opened[OF co]]] .
      then have "closed_out w (closing_subscribe (fresh s) sync
          (exec_all sel r (subscriber_next (AsObservable (fresh s)) (opened ov s))))"
        by (rule co_closing_subscribe[OF _ ne])
      then show ?thesis
        using False Inr ne by (simp add: co_closingSubscription_add)
    qed
  qed
next
  case (10 sel s)
  then show ?case by (auto simp: closed_out_def)
next
  case (14 sel v window windowsCopy s)
  then show ?case using co_trace[of w s "[WindowNext window v]"]
    by (auto simp: emit_def)
next
  case (15 sel v window windowsCopy r rs s)
  have e: "closed_out w (emit (WindowNext window v) s)"
    using 15(3) co_trace[of w s "[WindowNext window v]"] by (simp add: emit_def)
  show ?case
  proof (cases "WindowUnsubscribe window \<in> set (trace s)")
    case True
    then show ?thesis using e by simp
  next
    case False
    have "closed_out w (if terminated window (trace s) then emit (WindowNext window v) s
               else exec_all sel r (emit (WindowNext window v) s))"
      using 15(1)[OF False _ e] e by simp
    then show ?thesis using 15(2)[OF False] False by simp
  qed
qed (simp_all add: co_on_opening co_handleError co_on_source_complete co_closing_notify)

lemma co_first:
  assumes "distinct (windows s)" and "w < fresh s"
  shows "closed_out w (closeWindow w s)"
  using assms by (auto simp: closed_out_def closeWindow_eq terminated_simps)

lemma co_noop:
  assumes "closed_out w s"
  shows "closeWindow w s = s\<lparr>trace := trace s @ [WindowComplete w, ClosingUnsubscribe w]\<rparr>"
    and "subject_of w' (trace (closeWindow w s)) = subject_of w' (trace s)"
proof -
  have "remove1 w (windows s) = windows s"
    using assms by (simp add: closed_out_def remove1_idem)
  moreover have "insert w (released s) = released s"
    using assms by (auto simp: closed_out_def)
  moreover have "(if w \<in> attached s then listening s - {w} else listening s) = listening s"
    using assms by (auto simp: closed_out_def)
  ultimately show "closeWindow w s = s\<lparr>trace := trace s @ [WindowComplete w, ClosingUnsubscribe w]\<rparr>"
    by (simp add: closeWindow_eq)
  have "status (subject_of w (trace s)) \<noteq> Open"
    using assms by (simp add: status_open_iff closed_out_def)
  then show "subject_of w' (trace (closeWindow w s)) = subject_of w' (trace s)"
    by (cases "w' = w") (simp_all add: closeWindow_eq subject_of_append)
qed

subsection \<open>Source values after any history\<close>

lemmas scenario_simps =
  start_def on_opening_def opened_def Let_def emit_def subscriber_next_def closing_subscribe_def
  closingSubscription_add_def terminated_def subject_of_def closing_notify_def
  closeWindow_eq handleError_eq on_source_complete_eq finalize_eq
  subscriber_unsubscribe_def subscriber_error_def on_opening_error_def

lemma foldl_next:
  "distinct ws \<Longrightarrow>
   foldl (subject_call w) sb (map (\<lambda>w. WindowNext w v) ws) =
     (if w \<in> set ws \<and> status sb = Open then sb\<lparr>received := received sb @ [v]\<rparr> else sb)"
proof (induction ws arbitrary: sb)
  case Nil show ?case by simp
next
  case (Cons a ws)
  then show ?case by auto
qed

lemma fan_out_plain:
  "\<forall>w \<in> set ws. WindowUnsubscribe w \<notin> set (trace s) \<Longrightarrow>
   trace (fan_out sel v ws [] s) = trace s @ map (\<lambda>w. WindowNext w v) ws"
  by (induction ws arbitrary: s) (simp_all add: emit_def)

lemma source_calls:
  assumes noemit: "\<forall>r \<in> set rs. \<forall>e \<in> set r. \<not> emits v e"
  shows "\<exists>k d. trace (exec sel (Source v rs) (exec_all sel es start)) = trace (exec_all sel es start) @ d
           \<and> filter (is_next_of v) d = map (\<lambda>w. WindowNext w v) (take k (windows (exec_all sel es start)))
           \<and> (out_closed (exec_all sel es start) \<longrightarrow> d = [] \<and> k = 0)
           \<and> (\<not> out_closed (exec sel (Source v rs) (exec_all sel es start))
                \<longrightarrow> length (windows (exec_all sel es start)) \<le> k)
           \<and> (\<forall>w. w < fresh (exec_all sel es start)
                 \<and> \<not> terminated w (trace (exec sel (Source v rs) (exec_all sel es start)))
                 \<and> \<not> out_closed (exec_all sel es start)
                 \<longrightarrow> length (windows (exec_all sel es start)) \<le> k)"
proof -
  let ?S = "exec_all sel es start"
  let ?S' = "exec sel (Source v rs) ?S"
  have inv: "registry_inv ?S" by (rule inv_reachable)
  have inv': "registry_inv ?S'" by (rule inv_exec_all_fan_out(1)[OF inv])
  obtain d where d: "trace ?S' = trace ?S @ d" using trace_grows(1) by blast
  show ?thesis
  proof (cases "out_closed ?S")
    case True
    then have "?S' = ?S" by simp
    then have "d = []" using d by simp
    then have "trace ?S' = trace ?S @ d
           \<and> filter (is_next_of v) d = map (\<lambda>w. WindowNext w v) (take 0 (windows ?S))
           \<and> (out_closed ?S \<longrightarrow> d = [] \<and> (0::nat) = 0)
           \<and> (\<not> out_closed ?S' \<longrightarrow> length (windows ?S) \<le> 0)
           \<and> (\<forall>w. w < fresh ?S \<and> \<not> terminated w (trace ?S') \<and> \<not> out_closed ?S
                 \<longrightarrow> length (windows ?S) \<le> 0)"
      using d True by simp
    then show ?thesis by blast
  next
    case False
    then have S': "?S' = fan_out sel v (windows ?S) rs ?S" by simp
    obtain k where k: "filter (is_next_of v) (trace ?S') =
               filter (is_next_of v) (trace ?S) @ map (\<lambda>w. WindowNext w v) (take k (windows ?S))"
      and kc: "k < length (windows ?S) \<longrightarrow> out_closed ?S' \<and> armed ?S'"
      using fan_out_calls[OF inv noemit, of sel "windows ?S"] unfolding S' by blast
    have fd: "filter (is_next_of v) d = map (\<lambda>w. WindowNext w v) (take k (windows ?S))"
      using k unfolding d by simp
    have full: "length (windows ?S) \<le> k"
      if "w < fresh ?S" and "\<not> terminated w (trace ?S')" for w
    proof (rule ccontr)
      assume "\<not> length (windows ?S) \<le> k"
      then have "out_closed ?S' \<and> armed ?S'" using kc by simp
      then have "filter (\<lambda>w. \<not> terminated w (trace ?S')) [0..<fresh ?S'] = []"
        using inv' by (auto simp: registry_inv_def)
      moreover have "w < fresh ?S'" using that(1) fresh_mono(1)[of ?S sel "Source v rs"] by simp
      ultimately show False using that(2) by (auto simp: filter_empty_conv)
    qed
    have "trace ?S' = trace ?S @ d
           \<and> filter (is_next_of v) d = map (\<lambda>w. WindowNext w v) (take k (windows ?S))
           \<and> (out_closed ?S \<longrightarrow> d = [] \<and> k = 0)
           \<and> (\<not> out_closed ?S' \<longrightarrow> length (windows ?S) \<le> k)
           \<and> (\<forall>w. w < fresh ?S \<and> \<not> terminated w (trace ?S') \<and> \<not> out_closed ?S
                 \<longrightarrow> length (windows ?S) \<le> k)"
      using d fd False kc full by auto
    then show ?thesis by blast
  qed
qed

lemma calls_on_window:
  assumes "distinct ws" and "filter (is_next_of v) d = map (\<lambda>w. WindowNext w v) (take k ws)"
  shows "length (filter (\<lambda>x. x = WindowNext w v) d) = (if w \<in> set (take k ws) then 1 else 0)"
proof -
  have "distinct (take k ws)" using assms(1) by simp
  then have "length (filter (\<lambda>x. x = WindowNext w v) (map (\<lambda>w. WindowNext w v) (take k ws)))
      = (if w \<in> set (take k ws) then 1 else 0)"
    by (rule one_call_filter)
  moreover have "filter (\<lambda>x. x = WindowNext w v) d =
      filter (\<lambda>x. x = WindowNext w v) (map (\<lambda>w. WindowNext w v) (take k ws))"
    using filter_eq_is_next[of w v d] unfolding assms(2) by simp
  ultimately show ?thesis by (simp only:)
qed

subsection \<open>Delivery of source values\<close>

text \<open>
  C1, as amended. Let \<open>v\<close> arrive on the source after any history of notifications,
  reentrant ones included. If nothing reacts to \<open>v\<close>, it is passed by \<open>next\<close> to exactly
  the windows that have been opened and have had no terminal call (\<open>complete\<close>, \<open>error\<close>,
  \<open>unsubscribe\<close>), once each, in opening order, and no other call is made: each such
  window appends \<open>v\<close> to what it has received and every other window is unchanged, so a
  window is given \<open>v\<close> if and only if \<open>v\<close> arrives after its opening and before its close,
  whatever the other windows are. If the consumers react from inside the fan-out in any
  way that does not make the source send \<open>v\<close> itself again, every window receives \<open>v\<close>
  at most once, and only if it was open when \<open>v\<close> arrived; it does receive \<open>v\<close> if it was
  open when \<open>v\<close> arrived and is still open when the fan-out has finished. A window
  that is closed from inside the fan-out may thus miss \<open>v\<close>, and a window opened from
  inside the fan-out is not given \<open>v\<close>.
\<close>

theorem delivered_when_open:
  fixes sel :: "'o \<Rightarrow> 'e + 'e signal list" and es :: "('o, 'v, 'e) event list"
  defines "S \<equiv> exec_all sel es start"
  shows "trace (exec sel (Source v []) S) =
           trace S @ (if out_closed S then []
                      else map (\<lambda>w. WindowNext w v)
                             (filter (\<lambda>w. \<not> terminated w (trace S)) [0..<fresh S]))
         \<and> (\<forall>w. subject_of w (trace (exec sel (Source v []) S)) =
              (if \<not> out_closed S \<and> w < fresh S \<and> \<not> terminated w (trace S)
               then (subject_of w (trace S))\<lparr>received := received (subject_of w (trace S)) @ [v]\<rparr>
               else subject_of w (trace S)))
         \<and> ((\<forall>r \<in> set rs. \<forall>e \<in> set r. \<not> emits v e) \<longrightarrow>
              (\<forall>w. count_list (received (subject_of w (trace S))) v
                     \<le> count_list (received (subject_of w (trace (exec sel (Source v rs) S)))) v
                 \<and> count_list (received (subject_of w (trace (exec sel (Source v rs) S)))) v
                     \<le> count_list (received (subject_of w (trace S))) v + 1
                 \<and> (count_list (received (subject_of w (trace (exec sel (Source v rs) S)))) v
                       = count_list (received (subject_of w (trace S))) v + 1
                     \<longrightarrow> \<not> out_closed S \<and> w < fresh S \<and> \<not> terminated w (trace S))
                 \<and> (\<not> out_closed S \<and> w < fresh S
                       \<and> \<not> terminated w (trace (exec sel (Source v rs) S))
                     \<longrightarrow> count_list (received (subject_of w (trace (exec sel (Source v rs) S)))) v
                           = count_list (received (subject_of w (trace S))) v + 1)))"
proof -
  let ?open = "filter (\<lambda>w. \<not> terminated w (trace S)) [0..<fresh S]"
  have inv: "registry_inv S" unfolding S_def by (rule inv_reachable)
  have ws: "windows S = ?open" using inv by (simp add: registry_inv_def)
  have dist: "distinct (windows S)" unfolding ws by simp
  have mem: "w \<in> set (windows S) \<longleftrightarrow> w < fresh S \<and> \<not> terminated w (trace S)" for w
    unfolding ws by auto
  have tr: "trace (exec sel (Source v []) S) =
           trace S @ (if out_closed S then [] else map (\<lambda>w. WindowNext w v) ?open)"
  proof (cases "out_closed S")
    case True
    then show ?thesis by simp
  next
    case False
    then have "\<forall>w \<in> set (windows S). WindowUnsubscribe w \<notin> set (trace S)"
      using inv by (auto simp: registry_inv_def)
    then show ?thesis using False fan_out_plain[of "windows S" S sel v] ws by simp
  qed
  have subj: "subject_of w (trace (exec sel (Source v []) S)) =
              (if \<not> out_closed S \<and> w < fresh S \<and> \<not> terminated w (trace S)
               then (subject_of w (trace S))\<lparr>received := received (subject_of w (trace S)) @ [v]\<rparr>
               else subject_of w (trace S))" for w
    unfolding tr by (simp add: subject_of_append foldl_next status_open_iff)
  have general: "count_list (received (subject_of w (trace S))) v
                     \<le> count_list (received (subject_of w (trace (exec sel (Source v rs) S)))) v
                 \<and> count_list (received (subject_of w (trace (exec sel (Source v rs) S)))) v
                     \<le> count_list (received (subject_of w (trace S))) v + 1
                 \<and> (count_list (received (subject_of w (trace (exec sel (Source v rs) S)))) v
                       = count_list (received (subject_of w (trace S))) v + 1
                     \<longrightarrow> \<not> out_closed S \<and> w < fresh S \<and> \<not> terminated w (trace S))
                 \<and> (\<not> out_closed S \<and> w < fresh S
                       \<and> \<not> terminated w (trace (exec sel (Source v rs) S))
                     \<longrightarrow> count_list (received (subject_of w (trace (exec sel (Source v rs) S)))) v
                           = count_list (received (subject_of w (trace S))) v + 1)"
    if noemit: "\<forall>r \<in> set rs. \<forall>e \<in> set r. \<not> emits v e" for w
  proof -
    let ?S' = "exec sel (Source v rs) S"
    let ?c = "count_list (received (subject_of w (trace S))) v"
    let ?c' = "count_list (received (subject_of w (trace ?S'))) v"
    obtain k d where d: "trace ?S' = trace S @ d"
      and fd: "filter (is_next_of v) d = map (\<lambda>w. WindowNext w v) (take k (windows S))"
      and cl: "out_closed S \<longrightarrow> d = [] \<and> k = 0"
      and full: "\<forall>w. w < fresh S \<and> \<not> terminated w (trace ?S') \<and> \<not> out_closed S
                 \<longrightarrow> length (windows S) \<le> k"
      using source_calls[OF noemit, of sel es] unfolding S_def by blast
    let ?n = "length (filter (\<lambda>x. x = WindowNext w v) d)"
    have n: "?n = (if w \<in> set (take k (windows S)) then 1 else 0)"
      by (rule calls_on_window[OF dist fd])
    have c': "?c' = count_list (received (foldl (subject_call w) (subject_of w (trace S)) d)) v"
      unfolding d by (simp add: subject_of_append)
    have b: "?c \<le> ?c' \<and> ?c' \<le> ?c + ?n"
      unfolding c' by (rule received_bounds)
    have "?n \<le> 1" using n by simp
    then have one: "?c' \<le> ?c + 1" using b by simp
    have only: "\<not> out_closed S \<and> w < fresh S \<and> \<not> terminated w (trace S)" if "?c' = ?c + 1"
    proof -
      have n1: "1 \<le> ?n" using that b by simp
      have "w \<in> set (take k (windows S))"
      proof (rule ccontr)
        assume "w \<notin> set (take k (windows S))"
        then have "?n = 0" using n by simp
        then show False using n1 by simp
      qed
      then have "w \<in> set (windows S)" and "k \<noteq> 0"
        by (auto dest: in_set_takeD intro!: Nat.gr0I)
      then show ?thesis using mem cl by auto
    qed
    have every: "?c' = ?c + 1"
      if h: "\<not> out_closed S \<and> w < fresh S \<and> \<not> terminated w (trace ?S')"
    proof -
      have nt: "\<not> terminated w (trace S)" "\<not> terminated w d"
        using h unfolding d by (simp_all add: terminated_append)
      then have "w \<in> set (windows S)" using h mem by simp
      moreover have "length (windows S) \<le> k" using full h by blast
      ultimately have "?n = 1" using n by simp
      moreover have "?c' = ?c + ?n"
        unfolding c' by (rule received_exact) (simp_all add: status_open_iff nt)
      ultimately show ?thesis by simp
    qed
    show ?thesis
    proof (intro conjI impI)
      show "?c \<le> ?c'" using b by simp
      show "?c' \<le> ?c + 1" by (rule one)
      show "\<not> out_closed S" if "?c' = ?c + 1" using only[OF that] by simp
      show "w < fresh S" if "?c' = ?c + 1" using only[OF that] by simp
      show "\<not> terminated w (trace S)" if "?c' = ?c + 1" using only[OF that] by simp
      show "?c' = ?c + 1"
        if "\<not> out_closed S \<and> w < fresh S \<and> \<not> terminated w (trace ?S')"
        by (rule every[OF that])
    qed
  qed
  show ?thesis using tr subj general by blast
qed

theorem delivered_when_open_witness:
  "trace (exec_all (\<lambda>_. Inr []) [SourceSubscribe, Opening (0::nat), Source 1 [], Opening 5, Source 6 []]
      (start :: (nat, nat, nat) state)) =
     [WindowNew 0, SelectorCall 0, OutNext (AsObservable 0), ClosingSubscribe 0,
      WindowNext 0 1,
      WindowNew 1, SelectorCall 5, OutNext (AsObservable 1), ClosingSubscribe 1,
      WindowNext 0 6, WindowNext 1 6]
   \<and> subject_of 0 (trace (exec_all (\<lambda>_. Inr [])
        [SourceSubscribe, Opening (0::nat), Source 1 [], Opening 5, Source 6 [], Closing 0 CNext,
         Source 11 [], Closing 1 CNext] (start :: (nat, nat, nat) state)))
       = \<lparr>status = Completed, received = [1, 6]\<rparr>
   \<and> subject_of 1 (trace (exec_all (\<lambda>_. Inr [])
        [SourceSubscribe, Opening (0::nat), Source 1 [], Opening 5, Source 6 [], Closing 0 CNext,
         Source 11 [], Closing 1 CNext] (start :: (nat, nat, nat) state)))
       = \<lparr>status = Completed, received = [6, 11]\<rparr>
   \<and> count_list (received (subject_of 0 (trace (exec_all (\<lambda>_. Inr [])
        [SourceSubscribe, Opening (0::nat), Opening 1, Source 7 [[Closing 1 CNext, Source 8 []]]]
        (start :: (nat, nat, nat) state))))) 7 = 1"
proof -
  have hyp: "\<forall>r \<in> set [[Closing 1 CNext, Source 8 [] :: (nat, nat, nat) event]].
               \<forall>e \<in> set r. \<not> emits (7::nat) e"
    by simp
  note th = delivered_when_open
    [of "\<lambda>_. Inr []" 7 "[SourceSubscribe, Opening (0::nat), Opening 1]"
        "[[Closing 1 CNext, Source 8 []]]"]
  note plain = th[THEN conjunct1]
  note general = th[THEN conjunct2, THEN conjunct2, THEN mp, OF hyp, THEN spec, where x = 0]
  show ?thesis
    using plain general by (simp add: scenario_simps)
qed

text \<open>
  C1, as stated, fails. Windows 0 and 1 are open when 7 arrives. The consumer of window
  0, while it is given 7, makes the openings stream fire and makes the closing stream of
  window 1 fire: window 1 is sent \<open>complete\<close> before its turn in the loop of lines
  122-124, and receives nothing, although 7 arrived after its opening and before its
  close.
\<close>

theorem closed_during_fan_out_counterexample:
  "windows (exec_all (\<lambda>_. Inr []) [SourceSubscribe, Opening (0::nat), Opening 1]
      (start :: (nat, nat, nat) state)) = [0, 1]
   \<and> subject_of 1 (trace (exec_all (\<lambda>_. Inr []) [SourceSubscribe, Opening (0::nat), Opening 1]
      (start :: (nat, nat, nat) state))) = \<lparr>status = Open, received = []\<rparr>
   \<and> trace (exec_all (\<lambda>_. Inr [])
        [SourceSubscribe, Opening (0::nat), Opening 1, Source 7 [[Opening 2, Closing 1 CNext]]]
        (start :: (nat, nat, nat) state)) =
       [WindowNew 0, SelectorCall 0, OutNext (AsObservable 0), ClosingSubscribe 0,
        WindowNew 1, SelectorCall 1, OutNext (AsObservable 1), ClosingSubscribe 1,
        WindowNext 0 7,
        WindowNew 2, SelectorCall 2, OutNext (AsObservable 2), ClosingSubscribe 2,
        WindowComplete 1, ClosingUnsubscribe 1,
        WindowNext 1 7]
   \<and> subject_of 0 (trace (exec_all (\<lambda>_. Inr [])
        [SourceSubscribe, Opening (0::nat), Opening 1, Source 7 [[Opening 2, Closing 1 CNext]]]
        (start :: (nat, nat, nat) state))) = \<lparr>status = Open, received = [7]\<rparr>
   \<and> subject_of 1 (trace (exec_all (\<lambda>_. Inr [])
        [SourceSubscribe, Opening (0::nat), Opening 1, Source 7 [[Opening 2, Closing 1 CNext]]]
        (start :: (nat, nat, nat) state))) = \<lparr>status = Completed, received = []\<rparr>
   \<and> subject_of 2 (trace (exec_all (\<lambda>_. Inr [])
        [SourceSubscribe, Opening (0::nat), Opening 1, Source 7 [[Opening 2, Closing 1 CNext]]]
        (start :: (nat, nat, nat) state))) = \<lparr>status = Open, received = []\<rparr>"
  by (simp add: scenario_simps)

subsection \<open>Windows handed to the output\<close>




subsection \<open>Source completion\<close>



subsection \<open>Source error\<close>



subsection \<open>Error of the openings stream\<close>

text \<open>
  C5. The claim is that an error of the openings stream goes through \<open>handleError\<close>, so
  that every open window is sent the error before the output. The openings listener is
  built without an error callback (line 109), unlike the closing listener (line 95) and
  the source listener (line 126): the error is passed to the output and no window is
  sent \<open>error\<close>. If line 115 has built the source listener, the windows still in the
  registry are then disposed of by its teardown, with \<open>unsubscribe\<close>; if the openings
  stream errors while it is being subscribed (line 83), there is no teardown, and the
  windows stay in the registry with no call at all.
\<close>

theorem openings_error_forwarded:
  assumes "\<not> out_closed s" and "\<not> openings_done s"
  shows "exec sel (OpeningError err) s =
           (if armed s
            then s\<lparr>windows := [],
                   trace := trace s @ [OutError err] @ map WindowUnsubscribe (windows s),
                   out_closed := True, openings_done := True, listening := {}\<rparr>
            else s\<lparr>trace := trace s @ [OutError err],
                   out_closed := True, openings_done := True, listening := {}\<rparr>)"
  using assms by (simp add: on_opening_error_def subscriber_error_def finalize_eq emit_def)

theorem openings_error_forwarded_witness:
  "windows (exec_all (\<lambda>_. Inr []) [SourceSubscribe, Opening (0::nat)]
      (start :: (nat, nat, nat) state)) = [0]
   \<and> trace (exec_all (\<lambda>_. Inr []) [SourceSubscribe, Opening (0::nat), OpeningError 9]
      (start :: (nat, nat, nat) state)) =
       [WindowNew 0, SelectorCall 0, OutNext (AsObservable 0), ClosingSubscribe 0,
        OutError 9, WindowUnsubscribe 0]
   \<and> status (subject_of 0 (trace (exec_all (\<lambda>_. Inr [])
         [SourceSubscribe, Opening (0::nat), OpeningError 9]
         (start :: (nat, nat, nat) state)))) = Cancelled
   \<and> exec_all (\<lambda>_. Inr []) [Opening (0::nat), OpeningError 9, SourceSubscribe]
      (start :: (nat, nat, nat) state) =
       \<lparr>windows = [0], fresh = 1,
        trace = [WindowNew 0, SelectorCall 0, OutNext (AsObservable 0), ClosingSubscribe 0,
                 OutError 9],
        out_closed = True, openings_done = True,
        released = {}, attached = {0}, listening = {}, armed = False\<rparr>"
  using openings_error_forwarded
    [of "exec_all (\<lambda>_. Inr []) [SourceSubscribe, Opening (0::nat)] (start :: (nat, nat, nat) state)"
        "\<lambda>_. Inr []" 9]
  by (simp add: scenario_simps)

subsection \<open>The order of steps in the opening handler\<close>



subsection \<open>A closing selector that throws\<close>



subsection \<open>Cancellation of the output\<close>

text \<open>
  C8. The claim is that cancelling the output forcibly cancels every remaining window,
  so that a consumer subscribing to one afterwards is given an error at once; the
  comment of lines 135-139 says the same. This is what happens once line 115 has built
  the source listener: the windows still in the registry are sent \<open>unsubscribe\<close> and
  nothing else is called, a window that had no terminal call before ends in the state
  \<open>Cancelled\<close> with what it had received unchanged, and a late subscriber is given an
  error. When the output is cancelled before line 115, from inside \<open>subscriber.next\<close>
  (line 105) for an opening value that the openings stream sends while it is being
  subscribed (line 83), no teardown exists: nothing is called, the windows stay open in
  the registry, and a late subscriber waits. In both cases every later notification is
  ignored.
\<close>

theorem cancel_disposes_windows:
  assumes "\<not> out_closed s"
  shows "exec sel Cancel s =
           (if armed s
            then s\<lparr>windows := [], trace := trace s @ map WindowUnsubscribe (windows s),
                   out_closed := True, listening := {}\<rparr>
            else s\<lparr>out_closed := True, listening := {}\<rparr>)
         \<and> (\<forall>w \<in> set (windows s). \<not> terminated w (trace s) \<longrightarrow>
               (if armed s
                then subject_of w (trace (exec sel Cancel s)) =
                       (subject_of w (trace s))\<lparr>status := Cancelled\<rparr>
                     \<and> late_subscriber (subject_of w (trace (exec sel Cancel s))) =
                         LateUnsubscribedError
                else subject_of w (trace (exec sel Cancel s)) = subject_of w (trace s)
                     \<and> late_subscriber (subject_of w (trace (exec sel Cancel s))) = Waits))
         \<and> (\<forall>e. exec sel e (exec sel Cancel s) = exec sel Cancel s)"
proof -
  have eq: "exec sel Cancel s =
           (if armed s
            then s\<lparr>windows := [], trace := trace s @ map WindowUnsubscribe (windows s),
                   out_closed := True, listening := {}\<rparr>
            else s\<lparr>out_closed := True, listening := {}\<rparr>)"
    using assms by (simp add: subscriber_unsubscribe_def finalize_eq)
  have closed: "out_closed (exec sel Cancel s)"
    unfolding eq by simp
  have after: "\<forall>e. exec sel e (exec sel Cancel s) = exec sel Cancel s"
    using exec_closed[OF closed] by blast
  have subj: "\<forall>w \<in> set (windows s). \<not> terminated w (trace s) \<longrightarrow>
               (if armed s
                then subject_of w (trace (exec sel Cancel s)) =
                       (subject_of w (trace s))\<lparr>status := Cancelled\<rparr>
                     \<and> late_subscriber (subject_of w (trace (exec sel Cancel s))) =
                         LateUnsubscribedError
                else subject_of w (trace (exec sel Cancel s)) = subject_of w (trace s)
                     \<and> late_subscriber (subject_of w (trace (exec sel Cancel s))) = Waits)"
    unfolding eq
    by (simp add: subject_of_append foldl_unsubscribe status_open_iff
        status_open_iff[symmetric, of _ "trace s"] del: status_open_iff)
  show ?thesis using eq after subj by blast
qed

theorem cancel_disposes_windows_witness:
  "\<not> out_closed (subscriber_next (AsObservable 0) (opened (0::nat) (start :: (nat, nat, nat) state)))
   \<and> \<not> armed (subscriber_next (AsObservable 0) (opened (0::nat) (start :: (nat, nat, nat) state)))
   \<and> exec_all (\<lambda>_. Inr []) [OpeningReact (0::nat) [Cancel], SourceSubscribe, Source 7 []]
        (start :: (nat, nat, nat) state) =
       \<lparr>windows = [0], fresh = 1,
        trace = [WindowNew 0, SelectorCall 0, OutNext (AsObservable 0), ClosingSubscribe 0],
        out_closed = True, openings_done = False,
        released = {}, attached = {0}, listening = {}, armed = False\<rparr>
   \<and> subject_of 0 (trace (exec_all (\<lambda>_. Inr [])
         [OpeningReact (0::nat) [Cancel], SourceSubscribe, Source 7 []]
         (start :: (nat, nat, nat) state))) = \<lparr>status = Open, received = []\<rparr>
   \<and> late_subscriber (subject_of 0 (trace (exec_all (\<lambda>_. Inr [])
         [OpeningReact (0::nat) [Cancel], SourceSubscribe, Source 7 []]
         (start :: (nat, nat, nat) state)))) = (Waits :: nat late)
   \<and> trace (exec_all (\<lambda>_. Inr []) [SourceSubscribe, Opening (0::nat), Source 7 [], Cancel]
         (start :: (nat, nat, nat) state)) =
       [WindowNew 0, SelectorCall 0, OutNext (AsObservable 0), ClosingSubscribe 0,
        WindowNext 0 7, WindowUnsubscribe 0]
   \<and> late_subscriber (subject_of 0 (trace (exec_all (\<lambda>_. Inr [])
         [SourceSubscribe, Opening (0::nat), Source 7 [], Cancel]
         (start :: (nat, nat, nat) state)))) = (LateUnsubscribedError :: nat late)"
  using cancel_disposes_windows
    [of "subscriber_next (AsObservable 0) (opened (0::nat) (start :: (nat, nat, nat) state))"
        "\<lambda>_. Inr []"]
  by (simp add: scenario_simps)

subsection \<open>Fan-out over a copy of the registry\<close>

text \<open>
  C9, as amended. Take a source value \<open>v\<close> that arrives after any history of
  notifications and whose fan-out sets off any reactions that do not make the source
  send \<open>v\<close> itself again (they may open windows, send closing signals, make the source
  send other values, end the openings stream, cancel the output). The calls \<open>next(v)\<close>
  made are on windows of the copy of the registry taken when \<open>v\<close> arrived, in registry
  order, starting with the first; on all of them if the output is still open when the
  fan-out ends (the loop is left early only by \<open>next\<close> throwing on a window the
  teardown has unsubscribed). A window that is not in the copy, one registered during
  the fan-out among them, does not receive \<open>v\<close>. A window of the copy that is removed
  during the fan-out is still called, but it receives \<open>v\<close> only if the call comes before
  a terminal call on it: every removal in this file also ends the window (lines 91-92,
  71, 130, 141), so a window removed before its turn does not receive \<open>v\<close>.
\<close>

theorem fan_out_over_copy:
  fixes sel :: "'o \<Rightarrow> 'e + 'e signal list" and es :: "('o, 'v, 'e) event list"
  defines "S \<equiv> exec_all sel es start"
  assumes noemit: "\<forall>r \<in> set rs. \<forall>e \<in> set r. \<not> emits v e"
  shows "(\<exists>k. filter (is_next_of v) (drop (length (trace S)) (trace (exec sel (Source v rs) S))) =
                map (\<lambda>w. WindowNext w v) (take k (windows S))
              \<and> (\<not> out_closed (exec sel (Source v rs) S) \<longrightarrow> length (windows S) \<le> k))
         \<and> (\<forall>w. w \<notin> set (windows S) \<longrightarrow>
               count_list (received (subject_of w (trace (exec sel (Source v rs) S)))) v
                 = count_list (received (subject_of w (trace S))) v)
         \<and> (\<forall>w pre post.
               trace (exec sel (Source v rs) S) = pre @ WindowNext w v # post
               \<and> length (trace S) \<le> length pre \<longrightarrow>
               count_list (received (subject_of w (trace (exec sel (Source v rs) S)))) v
                 = count_list (received (subject_of w (trace S))) v
                   + (if terminated w pre then 0 else 1))"
proof -
  let ?S' = "exec sel (Source v rs) S"
  have dist: "distinct (windows S)"
    unfolding S_def using reachable_registry[of sel es] by blast
  obtain k d where d: "trace ?S' = trace S @ d"
    and fd: "filter (is_next_of v) d = map (\<lambda>w. WindowNext w v) (take k (windows S))"
    and full: "\<not> out_closed ?S' \<longrightarrow> length (windows S) \<le> k"
    using source_calls[OF noemit, of sel es] unfolding S_def by blast
  have n: "length (filter (\<lambda>x. x = WindowNext w v) d) = (if w \<in> set (take k (windows S)) then 1 else 0)"
    for w by (rule calls_on_window[OF dist fd])
  have first: "\<exists>k. filter (is_next_of v) (drop (length (trace S)) (trace ?S')) =
                map (\<lambda>w. WindowNext w v) (take k (windows S))
              \<and> (\<not> out_closed ?S' \<longrightarrow> length (windows S) \<le> k)"
    using fd full unfolding d by auto
  have outside: "count_list (received (subject_of w (trace ?S'))) v
                 = count_list (received (subject_of w (trace S))) v"
    if "w \<notin> set (windows S)" for w
  proof -
    have "w \<notin> set (take k (windows S))" using that by (auto dest: in_set_takeD)
    then have "length (filter (\<lambda>x. x = WindowNext w v) d) = 0" using n by simp
    then show ?thesis
      using received_bounds[of "subject_of w (trace S)" v w d]
      unfolding d by (simp add: subject_of_append)
  qed
  have position: "count_list (received (subject_of w (trace ?S'))) v
                 = count_list (received (subject_of w (trace S))) v
                   + (if terminated w pre then 0 else 1)"
    if split: "trace ?S' = pre @ WindowNext w v # post" and len: "length (trace S) \<le> length pre"
    for w pre post
  proof -
    define p where "p = drop (length (trace S)) pre"
    have "trace S @ d = pre @ WindowNext w v # post" using split d by simp
    then have tk: "trace S = take (length (trace S)) pre" and dd: "d = p @ WindowNext w v # post"
      using len by (auto simp: append_eq_append_conv_if p_def)
    have "pre = take (length (trace S)) pre @ drop (length (trace S)) pre" by simp
    then have pre: "pre = trace S @ p" using tk unfolding p_def by simp
    have "length (filter (\<lambda>x. x = WindowNext w v) d) \<le> 1" using n[of w] by simp
    then have zp: "length (filter (\<lambda>x. x = WindowNext w v) p) = 0"
      and zq: "length (filter (\<lambda>x. x = WindowNext w v) post) = 0"
      unfolding dd by simp_all
    let ?sb0 = "subject_of w (trace S)"
    let ?sb1 = "subject_of w pre"
    let ?sb2 = "subject_call w ?sb1 (WindowNext w v :: ('o, 'v, 'e) effect)"
    have c1: "count_list (received ?sb1) v = count_list (received ?sb0) v"
      using received_bounds[of ?sb0 v w p] zp unfolding pre by (simp add: subject_of_append)
    have c2: "count_list (received ?sb2) v =
        count_list (received ?sb1) v + (if terminated w pre then 0 else 1)"
      using status_open_iff[of w pre] by simp
    have "subject_of w (trace ?S') = foldl (subject_call w) ?sb2 post"
      unfolding split by (simp add: subject_of_append)
    then have c3: "count_list (received (subject_of w (trace ?S'))) v = count_list (received ?sb2) v"
      using received_bounds[of ?sb2 v w post] zq by simp
    show ?thesis using c1 c2 c3 by simp
  qed
  show ?thesis using first outside position by blast
qed

theorem fan_out_over_copy_witness:
  "windows (exec_all (\<lambda>_. Inr []) [SourceSubscribe, Opening (0::nat), Opening 1, Opening 2]
      (start :: (nat, nat, nat) state)) = [0, 1, 2]
   \<and> drop 12 (trace (exec_all (\<lambda>_. Inr [])
        [SourceSubscribe, Opening (0::nat), Opening 1, Opening 2,
         Source 7 [[Closing 1 CNext, Opening 3, Source 8 []], [], [Closing 0 CNext]]]
        (start :: (nat, nat, nat) state))) =
       [WindowNext 0 7,
        WindowComplete 1, ClosingUnsubscribe 1,
        WindowNew 3, SelectorCall 3, OutNext (AsObservable 3), ClosingSubscribe 3,
        WindowNext 0 8, WindowNext 2 8, WindowNext 3 8,
        WindowNext 1 7,
        WindowNext 2 7,
        WindowComplete 0, ClosingUnsubscribe 0]
   \<and> map (\<lambda>w. received (subject_of w (trace (exec_all (\<lambda>_. Inr [])
        [SourceSubscribe, Opening (0::nat), Opening 1, Opening 2,
         Source 7 [[Closing 1 CNext, Opening 3, Source 8 []], [], [Closing 0 CNext]]]
        (start :: (nat, nat, nat) state))))) [0, 1, 2, 3] = [[7, 8], [], [8, 7], [8]]
   \<and> drop 12 (trace (exec_all (\<lambda>_. Inr [])
        [SourceSubscribe, Opening (0::nat), Opening 1, Opening 2, Source 7 [[Cancel]]]
        (start :: (nat, nat, nat) state))) =
       [WindowNext 0 7, WindowUnsubscribe 0, WindowUnsubscribe 1, WindowUnsubscribe 2,
        WindowNext 1 7]"
proof -
  have hyp: "\<forall>r \<in> set [[Closing 1 CNext, Opening 3, Source 8 []], [],
                          [Closing 0 CNext :: (nat, nat, nat) event]].
               \<forall>e \<in> set r. \<not> emits (7::nat) e"
    by simp
  note th = fan_out_over_copy
    [OF hyp, of "\<lambda>_. Inr []" "[SourceSubscribe, Opening (0::nat), Opening 1, Opening 2]",
     THEN conjunct2, THEN conjunct1, rule_format, of 3]
  show ?thesis
    using th by (simp add: scenario_simps)
qed

text \<open>
  C9, as stated, fails. Windows 0 and 1 are in the copy taken when 7 arrives. The
  consumer of window 0, while it is given 7, makes the closing stream of window 1 fire:
  window 1 is removed from the registry and completed, and the call \<open>next(7)\<close> that the
  loop still makes on it reaches nobody.
\<close>

theorem removed_window_misses_value_counterexample:
  "windows (exec_all (\<lambda>_. Inr []) [SourceSubscribe, Opening (0::nat), Opening 1]
      (start :: (nat, nat, nat) state)) = [0, 1]
   \<and> drop 8 (trace (exec_all (\<lambda>_. Inr [])
        [SourceSubscribe, Opening (0::nat), Opening 1, Source 7 [[Closing 1 CNext]]]
        (start :: (nat, nat, nat) state))) =
       [WindowNext 0 7, WindowComplete 1, ClosingUnsubscribe 1, WindowNext 1 7]
   \<and> windows (exec_all (\<lambda>_. Inr [])
        [SourceSubscribe, Opening (0::nat), Opening 1, Source 7 [[Closing 1 CNext]]]
        (start :: (nat, nat, nat) state)) = [0]
   \<and> received (subject_of 1 (trace (exec_all (\<lambda>_. Inr [])
        [SourceSubscribe, Opening (0::nat), Opening 1, Source 7 [[Closing 1 CNext]]]
        (start :: (nat, nat, nat) state)))) = []"
  by (simp add: scenario_simps)

subsection \<open>The close procedure is idempotent\<close>

text \<open>
  C10. Once \<open>closeWindow\<close> has run for a window, then, whatever notifications are
  handled in between, running it again changes nothing but the trace of calls: the
  registry, the closing subscriptions and listeners and every other field stay as they
  are, and the state of every window (its terminal state and what it has received)
  is the same as before the second run.
\<close>

theorem closeWindow_idempotent:
  assumes "distinct (windows s)" and "w < fresh s"
  shows "closeWindow w (exec_all sel es (closeWindow w s)) =
           (exec_all sel es (closeWindow w s))
             \<lparr>trace := trace (exec_all sel es (closeWindow w s))
                        @ [WindowComplete w, ClosingUnsubscribe w]\<rparr>
         \<and> (\<forall>w'. subject_of w' (trace (closeWindow w (exec_all sel es (closeWindow w s)))) =
                  subject_of w' (trace (exec_all sel es (closeWindow w s))))"
  using co_noop[OF co_exec_all_fan_out(2)[OF co_first[OF assms], of sel es]] by blast

theorem closeWindow_idempotent_witness:
  "distinct (windows (exec_all (\<lambda>_. Inr []) [SourceSubscribe, Opening (0::nat), Opening 1]
      (start :: (nat, nat, nat) state)))
   \<and> 0 < fresh (exec_all (\<lambda>_. Inr []) [SourceSubscribe, Opening (0::nat), Opening 1]
      (start :: (nat, nat, nat) state))
   \<and> exec_all (\<lambda>_. Inr []) [Source 7 []]
        (closeWindow 0 (exec_all (\<lambda>_. Inr []) [SourceSubscribe, Opening (0::nat), Opening 1]
           (start :: (nat, nat, nat) state))) =
       \<lparr>windows = [1], fresh = 2,
        trace = [WindowNew 0, SelectorCall 0, OutNext (AsObservable 0), ClosingSubscribe 0,
                 WindowNew 1, SelectorCall 1, OutNext (AsObservable 1), ClosingSubscribe 1,
                 WindowComplete 0, ClosingUnsubscribe 0, WindowNext 1 7],
        out_closed = False, openings_done = False,
        released = {0}, attached = {0, 1}, listening = {1}, armed = True\<rparr>
   \<and> closeWindow 0 (exec_all (\<lambda>_. Inr []) [Source 7 []]
        (closeWindow 0 (exec_all (\<lambda>_. Inr []) [SourceSubscribe, Opening (0::nat), Opening 1]
           (start :: (nat, nat, nat) state)))) =
       \<lparr>windows = [1], fresh = 2,
        trace = [WindowNew 0, SelectorCall 0, OutNext (AsObservable 0), ClosingSubscribe 0,
                 WindowNew 1, SelectorCall 1, OutNext (AsObservable 1), ClosingSubscribe 1,
                 WindowComplete 0, ClosingUnsubscribe 0, WindowNext 1 7,
                 WindowComplete 0, ClosingUnsubscribe 0],
        out_closed = False, openings_done = False,
        released = {0}, attached = {0, 1}, listening = {1}, armed = True\<rparr>"
  using closeWindow_idempotent
    [of "exec_all (\<lambda>_. Inr []) [SourceSubscribe, Opening (0::nat), Opening 1]
           (start :: (nat, nat, nat) state)" 0
        "\<lambda>_. Inr []" "[Source 7 []]"]
  by (auto simp: scenario_simps)

end
